theory Spec2Isabelle
  imports Complex_Main "HOL-Library.AList" "HOL-Library.Sublist"
begin

section \<open>Strings and arrays of the JavaScript runtime\<close>

text \<open>
  A JavaScript string is modelled as a \<open>string\<close> (a list of characters); \<open>length\<close>
  counts its code units. \<open>String.prototype.trim\<close> removes white space from both ends;
  within the 8-bit range of \<open>char\<close> the white space characters are TAB, LF, VT, FF, CR,
  SPACE and NBSP.
\<close>

definition isWhitespace :: "char \<Rightarrow> bool" where
  "isWhitespace c =
     (c = CHR 0x09 \<or> c = CHR 0x0A \<or> c = CHR 0x0B \<or> c = CHR 0x0C \<or> c = CHR 0x0D \<or>
      c = CHR 0x20 \<or> c = CHR 0xA0)"

definition trim :: "string \<Rightarrow> string" where
  "trim s = rev (dropWhile isWhitespace (rev (dropWhile isWhitespace s)))"

text \<open>
  \<open>slice(start, end)\<close> of strings and arrays: a negative index counts from the end,
  every index is clamped to the length, and an empty result is returned when the
  bounds cross.
\<close>

definition slice :: "'a list \<Rightarrow> int \<Rightarrow> int \<Rightarrow> 'a list" where
  "slice s start endPos =
     (let len = int (length s);
          from = (if start < 0 then max (len + start) 0 else min start len);
          to = (if endPos < 0 then max (len + endPos) 0 else min endPos len)
      in take (nat (to - from)) (drop (nat from) s))"

definition startsWith :: "string \<Rightarrow> string \<Rightarrow> bool" where
  "startsWith s p = (take (length p) s = p)"

section \<open>The chunker (process-document route)\<close>

text \<open>
  The \<open>while\<close> loop of \<open>chunkText\<close>. Its state is \<open>start\<close> and the \<open>chunks\<close> pushed so
  far. Nothing in the loop forces \<open>start\<close> to grow, so the loop is a partial function:
  \<open>None\<close> stands for a run that never returns.
\<close>

partial_function (option) chunkLoop ::
  "string \<Rightarrow> int \<Rightarrow> int \<Rightarrow> int \<Rightarrow> int \<Rightarrow> string list \<Rightarrow> string list option" where
  "chunkLoop cleanText chunkSize overlap maxChunks start chunks =
     (if start < int (length cleanText) \<and> int (length chunks) < maxChunks then
        (let endPos = min (start + chunkSize) (int (length cleanText));
             chunk = slice cleanText start endPos;
             trimmedChunk = trim chunk
         in chunkLoop cleanText chunkSize overlap maxChunks (endPos - overlap)
              (if length trimmedChunk > 0 then chunks @ [trimmedChunk] else chunks))
      else Some chunks)"

definition chunkText :: "string \<Rightarrow> int \<Rightarrow> int \<Rightarrow> int \<Rightarrow> string list option" where
  "chunkText text chunkSize overlap maxChunks =
     (if text = [] \<or> length (trim text) = 0 then Some []
      else chunkLoop (trim text) chunkSize overlap maxChunks 0 [])"

text \<open>The call \<open>chunkText(text)\<close> of the route uses the default parameters.\<close>

definition chunkTextDefault :: "string \<Rightarrow> string list option" where
  "chunkTextDefault text = chunkText text 1000 200 50"

text \<open>
  The chunk of the window \<open>[length - 200, length)\<close>: what an iteration pushes once
  \<open>start\<close> is \<open>end - overlap\<close> with \<open>end\<close> at the end of the text.
\<close>

definition stallChunk :: "string \<Rightarrow> string" where
  "stallChunk t = trim (slice t (int (length t) - 200) (int (length t)))"


section \<open>JavaScript numbers\<close>

text \<open>
  A JavaScript \<open>number\<close> is an IEEE-754 binary64 value: a finite double, one of the two
  infinities, or \<open>NaN\<close>. A finite double is modelled by the real number it denotes; the
  two zeros of the format are identified (no result of the routes depends on the sign
  of a zero: the only division is by a product of two square roots, which is never
  \<open>-0\<close>).
\<close>

datatype number = Fin real | PInf | NInf | NaN

text \<open>Rounding to the nearest integer, a tie going to the even one.\<close>

definition rne :: "real \<Rightarrow> int" where
  "rne q =
     (let f = \<lfloor>q\<rfloor>; r = q - of_int f
      in if r < 1 / 2 then f else if 1 / 2 < r then f + 1 else if even f then f else f + 1)"

text \<open>
  \<open>float64 x\<close> is the double that an arithmetic operation with the exact result \<open>x\<close>
  returns (round to nearest, ties to even). A double has a significand of 53 bits; the
  exponent of its binade is at least \<open>-1022\<close> (below that the spacing stays
  \<open>2 powi (- 1074)\<close>, the subnormal range), and a result that rounds to \<open>2 ^ 1024\<close> or
  more in magnitude is an infinity.
\<close>

definition float64 :: "real \<Rightarrow> number" where
  "float64 x =
     (if x = 0 then Fin 0
      else
        (let e = max \<lfloor>log 2 \<bar>x\<bar>\<rfloor> (- 1022);
             ulp = 2 powi (e - 52);
             r = of_int (rne (x / ulp)) * ulp
         in if 2 ^ 1024 \<le> \<bar>r\<bar> then (if 0 < x then PInf else NInf) else Fin r))"

text \<open>The comparison \<open>a > 0\<close>; it is false of \<open>NaN\<close>.\<close>

definition positive :: "number \<Rightarrow> bool" where
  "positive a = (case a of Fin x \<Rightarrow> 0 < x | PInf \<Rightarrow> True | _ \<Rightarrow> False)"

text \<open>The operators \<open>*\<close>, \<open>+\<close>, unary and binary \<open>-\<close>, \<open>/\<close> and \<open>Math.sqrt\<close>.\<close>

definition numMul :: "number \<Rightarrow> number \<Rightarrow> number" where
  "numMul a b =
     (case (a, b) of
        (Fin x, Fin y) \<Rightarrow> float64 (x * y)
      | _ \<Rightarrow> if a = NaN \<or> b = NaN \<or> a = Fin 0 \<or> b = Fin 0 then NaN
             else if positive a = positive b then PInf else NInf)"

definition numAdd :: "number \<Rightarrow> number \<Rightarrow> number" where
  "numAdd a b =
     (case (a, b) of
        (Fin x, Fin y) \<Rightarrow> float64 (x + y)
      | _ \<Rightarrow> if a = NaN \<or> b = NaN \<or> (a = PInf \<and> b = NInf) \<or> (a = NInf \<and> b = PInf) then NaN
             else if a = PInf \<or> b = PInf then PInf else NInf)"

definition numNeg :: "number \<Rightarrow> number" where
  "numNeg a = (case a of Fin x \<Rightarrow> Fin (- x) | PInf \<Rightarrow> NInf | NInf \<Rightarrow> PInf | NaN \<Rightarrow> NaN)"

definition numSub :: "number \<Rightarrow> number \<Rightarrow> number" where
  "numSub a b = numAdd a (numNeg b)"

definition numDiv :: "number \<Rightarrow> number \<Rightarrow> number" where
  "numDiv a b =
     (case (a, b) of
        (Fin x, Fin y) \<Rightarrow>
          if y = 0 then (if x = 0 then NaN else if 0 < x then PInf else NInf)
          else float64 (x / y)
      | (Fin x, _) \<Rightarrow> if b = NaN then NaN else Fin 0
      | (_, Fin y) \<Rightarrow> if a = NaN then NaN else if positive a = (0 \<le> y) then PInf else NInf
      | _ \<Rightarrow> NaN)"

definition numSqrt :: "number \<Rightarrow> number" where
  "numSqrt a = (case a of Fin x \<Rightarrow> if x < 0 then NaN else float64 (sqrt x) | PInf \<Rightarrow> PInf | _ \<Rightarrow> NaN)"

text \<open>\<open>x || 0\<close> on a number: \<open>NaN\<close> and 0 are the falsy numbers.\<close>

definition orZero :: "number \<Rightarrow> number" where
  "orZero a = (if a = NaN \<or> a = Fin 0 then Fin 0 else a)"

text \<open>
  The finite doubles are the multiples of \<open>2 powi (- 1074)\<close> below \<open>2 ^ 1024\<close> that
  \<open>float64\<close> returns. \<open>valueOf\<close> places the numbers other than \<open>NaN\<close> on the real line in
  their order, the infinities beyond every double.
\<close>

definition isDouble :: "real \<Rightarrow> bool" where
  "isDouble r = (r * 2 ^ 1074 \<in> \<int> \<and> \<bar>r\<bar> < 2 ^ 1024)"

definition sortable :: "number \<Rightarrow> bool" where
  "sortable a = (case a of Fin r \<Rightarrow> isDouble r | NaN \<Rightarrow> False | _ \<Rightarrow> True)"

definition valueOf :: "number \<Rightarrow> real" where
  "valueOf a = (case a of Fin x \<Rightarrow> x | PInf \<Rightarrow> 2 ^ 1024 | NInf \<Rightarrow> - (2 ^ 1024) | NaN \<Rightarrow> 0)"

section \<open>The data model\<close>

text \<open>An embedding vector is an array of numbers.\<close>

type_synonym vector = "number list"

record DocumentData =
  fileId :: string
  filename :: string
  chunks :: "string list"
  embeddings :: "vector list"
  createdAt :: string

text \<open>
  \<open>globalThis.documentStore\<close> is declared as a \<open>Map<string, DocumentData>\<close> by the
  processing route and read as a \<open>Map<string, Map<string, any>>\<close> by the chat and cleanup
  routes. A stored value is therefore either a document or a map of documents. A
  \<open>Map\<close> is an association list in insertion order: \<open>map_of\<close> is \<open>get\<close>,
  \<open>AList.update\<close> is \<open>set\<close> and \<open>AList.delete\<close> is \<open>delete\<close>.
\<close>

datatype storeValue = Document DocumentData | SessionDocs "(string \<times> DocumentData) list"

type_synonym documentStore = "(string \<times> storeValue) list"

text \<open>
  The two process-wide globals; \<open>None\<close> is \<open>undefined\<close>. An entry of
  \<open>sessionMetaStore\<close> holds \<open>lastActivity\<close>, a time stamp in milliseconds.
\<close>

record globals =
  documentStore :: "documentStore option"
  sessionMetaStore :: "(string \<times> int) list option"

definition getDocumentStore :: "globals \<Rightarrow> documentStore \<times> globals" where
  "getDocumentStore g =
     (case documentStore g of
        None \<Rightarrow> ([], g\<lparr>documentStore := Some []\<rparr>)
      | Some ds \<Rightarrow> (ds, g))"

section \<open>The environment: credential, randomness, remote service, PDF parser\<close>

text \<open>
  What one request to the embeddings endpoint can do: \<open>fetch\<close> throws, the status is
  not ok, \<open>response.json()\<close> throws, the body holds no \<open>data[0].embedding\<close>, or it
  holds one.
\<close>

datatype fetchOutcome =
  FetchThrows | NotOk nat | JsonThrows | NoEmbedding | Embedding vector

record env =
  GRAVIXLAYER_API_KEY :: "string option"
  mathRandom :: "nat \<Rightarrow> number"
  embeddingsApi :: "nat \<Rightarrow> string \<Rightarrow> fetchOutcome"
  pdfToText :: "string \<Rightarrow> string option"
  isoNow :: string

text \<open>
  \<open>mathRandom e n\<close> is the value of the \<open>n\<close>-th call of \<open>Math.random()\<close>,
  \<open>embeddingsApi e n input\<close> the outcome of the \<open>n\<close>-th request, \<open>pdfToText e path\<close>
  the text \<open>readFile\<close> and \<open>pdfToText\<close> extract (\<open>None\<close>: one of them throws). The
  effects of a run are the number of random draws and the inputs sent to the remote
  service, in order.
\<close>

record effects =
  randomDrawn :: nat
  requests :: "string list"

definition truthy :: "string option \<Rightarrow> bool" where
  "truthy v = (case v of None \<Rightarrow> False | Some s \<Rightarrow> s \<noteq> [])"

section \<open>The embedding client (process-document route)\<close>

definition indexOf :: "'a list \<Rightarrow> 'a \<Rightarrow> int" where
  "indexOf array x =
     (case find (\<lambda>i. array ! i = x) [0..<length array] of
        None \<Rightarrow> -1 | Some i \<Rightarrow> int i)"

text \<open>
  The step \<open>.filter((chunk, index, array) => array.indexOf(chunk) === index)\<close>: an
  element stays where it stands first.
\<close>

definition firstOccurrences :: "'a list \<Rightarrow> 'a list" where
  "firstOccurrences array =
     map (\<lambda>index. array ! index)
       (filter (\<lambda>index. indexOf array (array ! index) = int index) [0..<length array])"

definition validateAndCleanChunks :: "string list \<Rightarrow> string list" where
  "validateAndCleanChunks texts =
     firstOccurrences (map trim (filter (\<lambda>chunk. length (trim chunk) \<ge> 3) texts))"

definition generateSingleDummyEmbedding :: "env \<Rightarrow> effects \<Rightarrow> vector \<times> effects" where
  "generateSingleDummyEmbedding e fx =
     (map (mathRandom e) [randomDrawn fx..<randomDrawn fx + 1536],
      fx\<lparr>randomDrawn := randomDrawn fx + 1536\<rparr>)"

fun dummyLoop :: "env \<Rightarrow> nat \<Rightarrow> vector list \<times> effects \<Rightarrow> vector list \<times> effects" where
  "dummyLoop e 0 (acc, fx) = (acc, fx)"
| "dummyLoop e (Suc n) (acc, fx) =
     (let (v, fx') = generateSingleDummyEmbedding e fx in dummyLoop e n (acc @ [v], fx'))"

definition generateDummyEmbeddings :: "env \<Rightarrow> int \<Rightarrow> effects \<Rightarrow> vector list \<times> effects" where
  "generateDummyEmbeddings e count fx =
     (let validCount = max 1 (min count 100) in dummyLoop e (nat validCount) ([], fx))"

text \<open>
  One iteration of the inner \<open>for (const text of batch)\<close>: every way the request can
  fail pushes a dummy vector (the \<open>continue\<close> and the \<open>catch (itemError)\<close>).
\<close>

definition embedItem :: "env \<Rightarrow> string \<Rightarrow> vector list \<times> effects \<Rightarrow> vector list \<times> effects" where
  "embedItem e text st =
     (let (allEmbeddings, fx) = st;
          response = embeddingsApi e (length (requests fx)) text;
          fx1 = fx\<lparr>requests := requests fx @ [text]\<rparr>
      in case response of
           Embedding v \<Rightarrow> (allEmbeddings @ [v], fx1)
         | _ \<Rightarrow> (let (d, fx2) = generateSingleDummyEmbedding e fx1
                 in (allEmbeddings @ [d], fx2)))"

function embedBatches ::
  "env \<Rightarrow> string list \<Rightarrow> nat \<Rightarrow> vector list \<times> effects \<Rightarrow> vector list \<times> effects" where
  "embedBatches e limitedTexts i st =
     (if i < length limitedTexts then
        (let batch = slice limitedTexts (int i) (int i + 3)
         in embedBatches e limitedTexts (i + 3) (foldl (\<lambda>s text. embedItem e text s) st batch))
      else st)"
  by pat_completeness auto
termination
  by (relation "measure (\<lambda>(e, limitedTexts, i, st). length limitedTexts - i)") auto

declare embedBatches.simps [simp del]

text \<open>
  \<open>generateEmbeddings\<close>. The pacing delays are not modelled. The outer \<open>catch\<close>, which
  would return \<open>generateDummyEmbeddings(texts.length || 1)\<close>, is not reachable: nothing
  in the \<open>try\<close> body throws outside the inner \<open>try\<close>.
\<close>

definition generateEmbeddings :: "env \<Rightarrow> string list \<Rightarrow> effects \<Rightarrow> vector list \<times> effects" where
  "generateEmbeddings e texts fx =
     (let validTexts = validateAndCleanChunks texts in
      if length validTexts = 0 then generateDummyEmbeddings e 1 fx
      else
        (let limitedTexts = slice validTexts 0 50 in
         if \<not> truthy (GRAVIXLAYER_API_KEY e)
         then generateDummyEmbeddings e (int (length limitedTexts)) fx
         else embedBatches e limitedTexts 0 ([], fx)))"


section \<open>The ingestion handler (POST of the process-document route)\<close>

definition extractTextFromPDF :: "env \<Rightarrow> string \<Rightarrow> string + string" where
  "extractTextFromPDF e path =
     (case pdfToText e path of
        None \<Rightarrow> Inl ''Failed to extract text from PDF using pdf-ts''
      | Some extractedText \<Rightarrow>
          if extractedText = [] \<or> length (trim extractedText) < 10
          then Inl ''Failed to extract text from PDF using pdf-ts''
          else Inr (trim extractedText))"

text \<open>
  The JSON body of the request. The handler reads \<open>fileId\<close>, \<open>filename\<close>, \<open>filepath\<close>
  and \<open>fileType\<close>; a \<open>sessionId\<close> sent along is not read. A missing field is the
  empty string (both are falsy).
\<close>

record processBody =
  bodySessionId :: string
  bodyFileId :: string
  bodyFilename :: string
  filepath :: string
  fileType :: string

datatype processResponse =
  ProcessError nat string
  | ProcessOk string string nat

text \<open>
  \<open>ProcessOk fileId filename n\<close> is the 200 response with \<open>chunks: n\<close>. The body is
  \<open>None\<close> when \<open>request.json()\<close> throws. The result is \<open>None\<close> when the chunker
  does not return.
\<close>

definition processDocumentPOST ::
  "env \<Rightarrow> processBody option \<Rightarrow> globals \<Rightarrow> effects \<Rightarrow> (processResponse \<times> globals \<times> effects) option" where
  "processDocumentPOST e request g fx =
     (case request of
        None \<Rightarrow> Some (ProcessError 500 ''Failed to process document'', g, fx)
      | Some b \<Rightarrow>
          if bodyFileId b = [] \<or> bodyFilename b = [] \<or> filepath b = [] \<or> fileType b = []
          then Some (ProcessError 400 ''Missing file metadata'', g, fx)
          else if fileType b \<noteq> ''application/pdf''
          then Some (ProcessError 400 ''Only PDF files are supported for now.'', g, fx)
          else
            (let (text, warning) =
                   (case extractTextFromPDF e (filepath b) of
                      Inr t \<Rightarrow> (t, None)
                    | Inl msg \<Rightarrow> ([], Some (if msg = [] then ''PDF extraction failed'' else msg)))
             in if text = [] \<or> length (trim text) < 10
                then Some (ProcessError 400
                       (case warning of Some w \<Rightarrow> w | None \<Rightarrow> ''No text extracted from document.''),
                       g, fx)
                else
                  (case chunkTextDefault text of
                     None \<Rightarrow> None
                   | Some cs \<Rightarrow>
                       if length cs = 0
                       then Some (ProcessError 400 ''No valid text chunks found in document.'', g, fx)
                       else
                         (let (es, fx') = generateEmbeddings e cs fx;
                              documentData =
                                \<lparr>fileId = bodyFileId b, filename = bodyFilename b, chunks = cs,
                                 embeddings = es, createdAt = isoNow e\<rparr>;
                              (store, g1) = getDocumentStore g
                          in Some (ProcessOk (bodyFileId b) (bodyFilename b) (length cs),
                                   g1\<lparr>documentStore :=
                                        Some (AList.update (bodyFileId b) (Document documentData) store)\<rparr>,
                                   fx')))))"

section \<open>The retriever (chat route)\<close>

text \<open>
  \<open>cosineSimilarity\<close> in double arithmetic: every product, sum, square root and quotient
  is rounded. The two arrays have equal length where \<open>reduce\<close> reads \<open>b[i]\<close>.
\<close>

definition cosineSimilarity :: "vector \<Rightarrow> vector \<Rightarrow> number" where
  "cosineSimilarity a b =
     (if length a \<noteq> length b \<or> length a = 0 then Fin 0
      else
        (let dotProduct =
               foldl (\<lambda>sum i. numAdd sum (orZero (numMul (a ! i) (b ! i)))) (Fin 0) [0..<length a];
             magnitudeA = numSqrt (foldl (\<lambda>sum val. numAdd sum (orZero (numMul val val))) (Fin 0) a);
             magnitudeB = numSqrt (foldl (\<lambda>sum val. numAdd sum (orZero (numMul val val))) (Fin 0) b)
         in if magnitudeA = Fin 0 \<or> magnitudeB = Fin 0 then Fin 0
            else numDiv dotProduct (numMul magnitudeA magnitudeB)))"


text \<open>
  \<open>Array.prototype.sort\<close> with a comparator is stable (ECMAScript 2019): it puts \<open>b\<close>
  before \<open>a\<close> where the comparator returns a positive number for \<open>(a, b)\<close>, and elements
  the comparator does not put in order (it returns 0, a negative number or \<open>NaN\<close>) keep
  their positions relative to each other. On a comparator that is a total preorder
  this is the result of a stable insertion sort.
\<close>

fun insertSorted :: "('a \<Rightarrow> 'a \<Rightarrow> number) \<Rightarrow> 'a \<Rightarrow> 'a list \<Rightarrow> 'a list" where
  "insertSorted cmp x [] = [x]"
| "insertSorted cmp x (y # ys) =
     (if positive (cmp x y) then y # insertSorted cmp x ys else x # y # ys)"

definition arraySort :: "('a \<Rightarrow> 'a \<Rightarrow> number) \<Rightarrow> 'a list \<Rightarrow> 'a list" where
  "arraySort cmp xs = foldr (insertSorted cmp) xs []"

text \<open>
  The inner \<open>for\<close> loop over one document; an item \<open>{chunk, similarity}\<close> is a pair.
\<close>

definition scoreDocument :: "vector \<Rightarrow> DocumentData \<Rightarrow> (string \<times> number) list \<Rightarrow> (string \<times> number) list" where
  "scoreDocument queryEmbedding doc allChunks =
     (let minLength = min (length (chunks doc)) (length (embeddings doc))
      in foldl (\<lambda>acc i.
           (let chunk = chunks doc ! i;
                chunkEmbedding = embeddings doc ! i
            in if length (trim chunk) > 0
               then (let similarity = cosineSimilarity queryEmbedding chunkEmbedding
                     in if positive similarity then acc @ [(trim chunk, similarity)] else acc)
               else acc))
         allChunks [0..<minLength])"

definition retrieveRelevantChunks ::
  "vector \<Rightarrow> (string \<times> DocumentData) list \<Rightarrow> int \<Rightarrow> string list" where
  "retrieveRelevantChunks queryEmbedding documents topK =
     (if length documents = 0 then []
      else if length queryEmbedding = 0 then []
      else
        (let allChunks = foldl (\<lambda>acc doc. scoreDocument queryEmbedding doc acc) [] (map snd documents)
         in if length allChunks = 0 then []
            else map fst (slice (arraySort (\<lambda>a b. numSub (snd b) (snd a)) allChunks) 0 (max 1 (min topK 10)))))"

section \<open>The chat handler (POST of the chat route)\<close>

record message =
  role :: string
  content :: string

text \<open>
  \<open>generateQueryEmbedding\<close>: an invalid query, a missing credential and every failure
  of the request end in a dummy vector.
\<close>

definition generateQueryEmbedding :: "env \<Rightarrow> string \<Rightarrow> effects \<Rightarrow> vector \<times> effects" where
  "generateQueryEmbedding e query fx =
     (if query = [] \<or> length (trim query) = 0 then generateSingleDummyEmbedding e fx
      else if \<not> truthy (GRAVIXLAYER_API_KEY e) then generateSingleDummyEmbedding e fx
      else
        (let response = embeddingsApi e (length (requests fx)) (trim query);
             fx1 = fx\<lparr>requests := requests fx @ [trim query]\<rparr>
         in case response of
              Embedding v \<Rightarrow> (v, fx1)
            | _ \<Rightarrow> generateSingleDummyEmbedding e fx1))"

definition join :: "string \<Rightarrow> string list \<Rightarrow> string" where
  "join sep xs = (case xs of [] \<Rightarrow> [] | x # rest \<Rightarrow> foldl (\<lambda>acc y. acc @ sep @ y) x rest)"

definition contextMessage :: "string list \<Rightarrow> message" where
  "contextMessage relevantChunks =
     \<lparr>role = ''system'',
      content =
        ''Use the following context from uploaded documents to answer questions. If the answer is not in the context, say so clearly.''
        @ [CHR 0x0A, CHR 0x0A] @ ''Context:'' @ [CHR 0x0A]
        @ join ([CHR 0x0A, CHR 0x0A] @ ''---'' @ [CHR 0x0A, CHR 0x0A]) relevantChunks\<rparr>"

text \<open>
  The \<open>if (useRAG)\<close> block: the session's documents are the value stored under the
  session id, provided it is a map; a stored value of another shape skips retrieval.
\<close>

definition ragMessages ::
  "env \<Rightarrow> string option \<Rightarrow> message list \<Rightarrow> globals \<Rightarrow> effects \<Rightarrow> message list \<times> globals \<times> effects" where
  "ragMessages e sessionId msgs g fx =
     (let (store, g1) = getDocumentStore g;
          sessionDocs =
            (case sessionId of
               None \<Rightarrow> None
             | Some sid \<Rightarrow>
                 if sid = [] then None
                 else (case map_of store sid of
                         Some (SessionDocs m) \<Rightarrow> Some m
                       | _ \<Rightarrow> None))
      in case sessionDocs of
           None \<Rightarrow> (msgs, g1, fx)
         | Some docs \<Rightarrow>
             if length docs = 0 then (msgs, g1, fx)
             else
               (case rev (filter (\<lambda>m. role m = ''user'') msgs) of
                  [] \<Rightarrow> (msgs, g1, fx)
                | lastUserMessage # _ \<Rightarrow>
                    if content lastUserMessage = [] then (msgs, g1, fx)
                    else
                      (let (queryEmbedding, fx') = generateQueryEmbedding e (content lastUserMessage) fx;
                           relevantChunks = retrieveRelevantChunks queryEmbedding docs 3
                       in if length relevantChunks > 0
                          then (slice msgs 0 (-1) @ [contextMessage relevantChunks, lastUserMessage], g1, fx')
                          else (msgs, g1, fx'))))"

record chatBody =
  messages :: "message list option"
  useRAG :: bool

datatype chatResult = ChatError nat string | Forwarded "message list"

text \<open>
  \<open>Forwarded ms\<close>: the handler sends \<open>ms\<close> as the \<open>messages\<close> of the request to the
  completion endpoint. \<open>messages\<close> is \<open>None\<close> when the body holds no array.
\<close>

definition chatPOST ::
  "env \<Rightarrow> string option \<Rightarrow> chatBody \<Rightarrow> globals \<Rightarrow> effects \<Rightarrow> chatResult \<times> globals \<times> effects" where
  "chatPOST e sessionId body g fx =
     (if \<not> truthy (GRAVIXLAYER_API_KEY e) then (ChatError 500 ''API key not configured'', g, fx)
      else
        (case messages body of
           None \<Rightarrow> (ChatError 400 ''Messages array is required'', g, fx)
         | Some msgs \<Rightarrow>
             (let (processedMessages, g', fx') =
                    (if useRAG body then ragMessages e sessionId msgs g fx else (msgs, g, fx))
              in (Forwarded (map (\<lambda>msg. \<lparr>role = role msg, content = content msg\<rparr>) processedMessages),
                  g', fx'))))"


section \<open>The uploads directory\<close>

text \<open>
  The state of the uploads directory: whether it exists (\<open>readdir\<close> throws when it
  does not), the names of its files, the files \<open>unlink\<close> fails on, and whether
  \<open>mkdir\<close> and \<open>writeFile\<close> fail.
\<close>

record uploadsDir =
  dirExists :: bool
  files :: "string list"
  locked :: "string list"
  readOnly :: bool

datatype fsError = ReaddirFailed | UnlinkFailed string

text \<open>
  The loop \<open>for (const file of files)\<close> inside a \<open>try\<close>: it runs over the listing
  \<open>readdir\<close> returned, unlinks every file that starts with the prefix, and stops at the
  first \<open>unlink\<close> that throws. The result is the files left, the number deleted and the
  error that stopped the loop.
\<close>

fun unlinkLoop ::
  "string \<Rightarrow> string list \<Rightarrow> string list \<Rightarrow> string list \<times> nat \<Rightarrow> string list \<times> nat \<times> fsError option" where
  "unlinkLoop pre lockedFiles [] (left, deleted) = (left, deleted, None)"
| "unlinkLoop pre lockedFiles (file # listing) (left, deleted) =
     (if startsWith file pre then
        (if file \<in> set lockedFiles then (left, deleted, Some (UnlinkFailed file))
         else unlinkLoop pre lockedFiles listing (removeAll file left, deleted + 1))
      else unlinkLoop pre lockedFiles listing (left, deleted))"

section \<open>The cleanup route\<close>

text \<open>
  The two copies of the route differ in their logging, in where the directory's path
  comes from, and in a \<open>mkdir\<close> before the \<open>readdir\<close> of
  \<open>clearUploadsDirForSession\<close>; \<open>cleanupIdleSessions\<close> and \<open>POST\<close> are the same. The helper
  is modelled as in \<open>src/app/api/cleanup/route.ts\<close>.
\<close>

definition clearUploadsDirForSession :: "string \<Rightarrow> uploadsDir \<Rightarrow> (nat \<times> fsError option) \<times> uploadsDir" where
  "clearUploadsDirForSession sessionId d =
     (if \<not> dirExists d then ((0, Some ReaddirFailed), d)
      else
        (let (left, deleted, err) = unlinkLoop (sessionId @ ''__'') (locked d) (files d) (files d, 0)
         in ((deleted, err), d\<lparr>files := left\<rparr>)))"

definition clearDocumentStoreForSession :: "string \<Rightarrow> globals \<Rightarrow> nat \<times> globals" where
  "clearDocumentStoreForSession sessionId g =
     (let clearedCount =
            (case documentStore g of
               None \<Rightarrow> 0
             | Some ds \<Rightarrow> if map_of ds sessionId \<noteq> None then 1 else (0::nat))
      in (clearedCount,
          g\<lparr>documentStore := map_option (AList.delete sessionId) (documentStore g),
            sessionMetaStore := map_option (AList.delete sessionId) (sessionMetaStore g)\<rparr>))"

text \<open>
  The body of the sweep for one idle session: the files are deleted inside a \<open>try\<close>
  whose \<open>catch\<close> is empty, then both maps drop the session. A \<open>delete\<close> on the
  \<open>new Map()\<close> that stands in for an undefined global changes nothing.
\<close>

definition deleteSessionFiles :: "string \<Rightarrow> uploadsDir \<Rightarrow> uploadsDir" where
  "deleteSessionFiles sessionId d =
     (if \<not> dirExists d then d
      else d\<lparr>files := fst (unlinkLoop (sessionId @ ''__'') (locked d) (files d) (files d, 0))\<rparr>)"

text \<open>
  The loop \<open>for (const [sessionId, meta] of sessionMetaStore.entries())\<close>. The only entry
  the body deletes is the one being visited, so the iterator visits the entries the map
  had when the loop started, in insertion order.
\<close>

fun sweepLoop ::
  "int \<Rightarrow> int \<Rightarrow> (string \<times> int) list \<Rightarrow> globals \<times> uploadsDir \<times> nat \<Rightarrow> globals \<times> uploadsDir \<times> nat" where
  "sweepLoop now idleMs [] st = st"
| "sweepLoop now idleMs ((sessionId, lastActivity) # entries) (g, d, cleaned) =
     (if now - lastActivity > idleMs then
        sweepLoop now idleMs entries
          (g\<lparr>documentStore := map_option (AList.delete sessionId) (documentStore g),
             sessionMetaStore := map_option (AList.delete sessionId) (sessionMetaStore g)\<rparr>,
           deleteSessionFiles sessionId d,
           cleaned + 1)
      else sweepLoop now idleMs entries (g, d, cleaned))"

definition cleanupIdleSessions :: "int \<Rightarrow> int \<Rightarrow> globals \<Rightarrow> uploadsDir \<Rightarrow> globals \<times> uploadsDir \<times> nat" where
  "cleanupIdleSessions idleMs now g d =
     sweepLoop now idleMs (case sessionMetaStore g of None \<Rightarrow> [] | Some sm \<Rightarrow> sm) (g, d, 0)"

fun showNat :: "nat \<Rightarrow> string" where
  "showNat n =
     (if n < 10 then [char_of (48 + n)] else showNat (n div 10) @ [char_of (48 + n mod 10)])"

record cleanupResponse =
  status :: nat
  success :: bool
  error :: "string option"
  uploads :: "(nat \<times> fsError option) option"
  documentStoreCleared :: "nat option"
  idleCleaned :: nat
  message :: "string option"

text \<open>
  \<open>POST\<close> of the cleanup route; \<open>now\<close> is \<open>Date.now()\<close> and \<open>cookie\<close> the value of
  the \<open>sessionId\<close> cookie.
\<close>

definition cleanupPOST ::
  "int \<Rightarrow> string option \<Rightarrow> globals \<Rightarrow> uploadsDir \<Rightarrow> cleanupResponse \<times> globals \<times> uploadsDir" where
  "cleanupPOST now cookie g d =
     (let (g1, d1, n) = cleanupIdleSessions (60 * 60 * 1000) now g d in
      if \<not> truthy cookie
      then (\<lparr>status = 400, success = False, error = Some ''No sessionId found in cookies.'',
             uploads = None, documentStoreCleared = None, idleCleaned = n, message = None\<rparr>,
            g1, d1)
      else
        (let sessionId = the cookie;
             (uploadsResult, d2) = clearUploadsDirForSession sessionId d1;
             (cleared, g2) = clearDocumentStoreForSession sessionId g1
         in (\<lparr>status = 200, success = True, error = None,
               uploads = Some uploadsResult, documentStoreCleared = Some cleared, idleCleaned = n,
               message = Some (''Uploads and document store cleared for session '' @ sessionId
                               @ ''. Idle sessions cleaned: '' @ showNat n)\<rparr>,
             g2, d2)))"

section \<open>The upload routes\<close>

definition MAX_FILE_SIZE :: nat where
  "MAX_FILE_SIZE = 10 * 1024 * 1024"

definition ALLOWED_TYPES :: "string list" where
  "ALLOWED_TYPES =
     [''application/pdf'', ''application/msword'',
      ''application/vnd.openxmlformats-officedocument.wordprocessingml.document'']"

record formFile =
  fileName :: string
  fileSize :: nat
  mimeType :: string

datatype uploadSaved = UploadError nat string | Saved string string

text \<open>
  The upload handler up to the point where the file is on disk: \<open>Saved name path\<close> is
  the name the file was written under and the path handed to the processing endpoint
  (written relative to the working directory). \<open>mkdir\<close> and \<open>writeFile\<close> throw
  exactly when the directory is read-only.
  \<open>extname\<close> is Node's \<open>path.extname\<close>, \<open>uuid\<close> the value \<open>uuidv4()\<close> returns and
  \<open>fresh\<close> the value \<open>crypto.randomUUID()\<close> returns.

  The repository holds two upload handlers. The first reads the session cookie (and
  issues one when there is none) and prefixes the file's name with the session id.
\<close>

definition saveFile :: "string \<Rightarrow> uploadsDir \<Rightarrow> uploadSaved \<times> uploadsDir" where
  "saveFile name d =
     (if \<not> dirExists d \<and> readOnly d then (UploadError 500 ''Failed to upload file'', d)
      else if readOnly d then (UploadError 500 ''Failed to save file'', d)
      else (Saved name (''uploads/'' @ name),
            d\<lparr>dirExists := True,
              files := (if name \<in> set (files d) then files d else files d @ [name])\<rparr>))"

definition uploadWithSession ::
  "(string \<Rightarrow> string) \<Rightarrow> string \<Rightarrow> string \<Rightarrow> string option \<Rightarrow> formFile option \<Rightarrow> uploadsDir
     \<Rightarrow> uploadSaved \<times> string option \<times> uploadsDir" where
  "uploadWithSession extname fresh uuid cookie file d =
     (let sessionId = (if truthy cookie then the cookie else fresh);
          cookie' = Some sessionId
      in case file of
           None \<Rightarrow> (UploadError 400 ''No file uploaded'', cookie', d)
         | Some f \<Rightarrow>
             if fileSize f > MAX_FILE_SIZE
             then (UploadError 400 ''File size exceeds 10MB limit'', cookie', d)
             else if mimeType f \<notin> set ALLOWED_TYPES
             then (UploadError 400 ''Only PDF and DOC files are allowed'', cookie', d)
             else
               (let extension = extname (fileName f);
                    name = sessionId @ ''__'' @ uuid @ extension;
                    (r, d') = saveFile name d
                in (r, cookie', d')))"

text \<open>The second handler reads no cookie and names the file by its id alone.\<close>

definition uploadWithoutSession ::
  "(string \<Rightarrow> string) \<Rightarrow> string \<Rightarrow> formFile option \<Rightarrow> uploadsDir \<Rightarrow> uploadSaved \<times> uploadsDir" where
  "uploadWithoutSession extname uuid file d =
     (case file of
        None \<Rightarrow> (UploadError 400 ''No file uploaded'', d)
      | Some f \<Rightarrow>
          if fileSize f > MAX_FILE_SIZE
          then (UploadError 400 ''File size exceeds 10MB limit'', d)
          else if mimeType f \<notin> set ALLOWED_TYPES
          then (UploadError 400 ''Only PDF and DOC files are allowed'', d)
          else (let extension = extname (fileName f);
                    name = uuid @ extension
                in saveFile name d))"


section \<open>Reading the globals\<close>

text \<open>
  \<open>sessionMetaStore.get(sessionId)?.lastActivity\<close> and \<open>documentStore.get(key)\<close> on a
  global that may be undefined, and the ids of the entries the sweep finds idle.
\<close>

definition activity :: "globals \<Rightarrow> string \<Rightarrow> int option" where
  "activity g sessionId = (case sessionMetaStore g of None \<Rightarrow> None | Some sm \<Rightarrow> map_of sm sessionId)"

definition storeGet :: "globals \<Rightarrow> string \<Rightarrow> storeValue option" where
  "storeGet g key = (case documentStore g of None \<Rightarrow> None | Some ds \<Rightarrow> map_of ds key)"

definition idleIds :: "int \<Rightarrow> int \<Rightarrow> (string \<times> int) list \<Rightarrow> string list" where
  "idleIds now idleMs entries = map fst (filter (\<lambda>e. now - snd e > idleMs) entries)"

section \<open>Concrete inputs\<close>

definition fx0 :: effects where
  "fx0 = \<lparr>randomDrawn = 0, requests = []\<rparr>"

definition helloText :: string where
  "helloText = ''Hello world, this is a test document with enough content.''"

definition offlineEnv :: env where
  "offlineEnv =
     \<lparr>GRAVIXLAYER_API_KEY = None,
      mathRandom = (\<lambda>n. Fin (1 / 2)),
      embeddingsApi = (\<lambda>n input. FetchThrows),
      pdfToText = (\<lambda>path. Some helloText),
      isoNow = ''2025-01-01T00:00:00.000Z''\<rparr>"

definition helloBody :: processBody where
  "helloBody =
     \<lparr>bodySessionId = ''s1'', bodyFileId = ''f1'', bodyFilename = ''hello.pdf'',
      filepath = ''uploads/s1__f1.pdf'', fileType = ''application/pdf''\<rparr>"

definition rankingDocs :: "(string \<times> DocumentData) list" where
  "rankingDocs =
     [(''f1'', \<lparr>fileId = ''f1'', filename = ''a.pdf'',
               chunks = [''alpha'', ''beta'', ''gamma'', ''delta''],
               embeddings = [map Fin [9, 3, 3, 1], map Fin [1, 9, 3, 3], map Fin [5, 5, 5, 5]],
               createdAt = ''2025-01-01T00:00:00.000Z''\<rparr>)]"

definition unrelatedDocs :: "(string \<times> DocumentData) list" where
  "unrelatedDocs =
     [(''f2'', \<lparr>fileId = ''f2'', filename = ''b.pdf'',
               chunks = [''alpha'', ''beta''],
               embeddings = [map Fin [0, 1, 0, 0], map Fin [- 1, 0, 0, 0]],
               createdAt = ''2025-01-01T00:00:00.000Z''\<rparr>)]"

definition tieDocs :: "(string \<times> DocumentData) list" where
  "tieDocs =
     [(''f3'', \<lparr>fileId = ''f3'', filename = ''c.pdf'',
               chunks = [''one'', ''two''],
               embeddings = [map Fin [1, 1], map Fin [3, 3]],
               createdAt = ''2025-01-01T00:00:00.000Z''\<rparr>)]"

definition sweepGlobals :: globals where
  "sweepGlobals =
     \<lparr>documentStore = Some [(''sessA'', SessionDocs []), (''sessB'', SessionDocs [])],
      sessionMetaStore = Some [(''sessA'', 2800000), (''sessB'', 8200000)]\<rparr>"

definition sweepDir :: uploadsDir where
  "sweepDir =
     \<lparr>dirExists = True, files = [''sessA__f1.pdf'', ''sessB__f2.pdf'', ''notes.txt''],
      locked = [], readOnly = False\<rparr>"

definition lockedDir :: uploadsDir where
  "lockedDir =
     \<lparr>dirExists = True, files = [''sessA__f1.pdf'', ''sessA__f2.pdf''],
      locked = [''sessA__f1.pdf''], readOnly = False\<rparr>"

definition prefixGlobals :: globals where
  "prefixGlobals =
     \<lparr>documentStore = Some [(''a'', SessionDocs []), (''a__b'', SessionDocs [])],
      sessionMetaStore = Some [(''a'', 2800000), (''a__b'', 8200000)]\<rparr>"

definition prefixDir :: uploadsDir where
  "prefixDir =
     \<lparr>dirExists = True, files = [''a__b__f1.pdf''], locked = [], readOnly = False\<rparr>"

definition emptyDir :: uploadsDir where
  "emptyDir = \<lparr>dirExists = False, files = [], locked = [], readOnly = False\<rparr>"

definition pdfFile :: formFile where
  "pdfFile = \<lparr>fileName = ''doc.pdf'', fileSize = 1000, mimeType = ''application/pdf''\<rparr>"

section \<open>Properties of the chunker\<close>


lemma trim_last_nonws: "s \<noteq> [] \<Longrightarrow> \<not> isWhitespace (last s) \<Longrightarrow> trim s = dropWhile isWhitespace s"
proof -
  assume a: "s \<noteq> []" "\<not> isWhitespace (last s)"
  let ?d = "dropWhile isWhitespace s"
  have ne: "?d \<noteq> []" using a by (metis dropWhile_eq_Nil_conv last_in_set)
  have "last ?d = last s" using a ne
    by (metis last_appendR takeWhile_dropWhile_id)
  then have "\<not> isWhitespace (hd (rev ?d))" using a ne by (simp add: hd_rev)
  then have "dropWhile isWhitespace (rev ?d) = rev ?d"
    using ne by (cases "rev ?d") auto
  then show ?thesis by (simp add: trim_def)
qed

lemma trim_nonempty: "s \<noteq> [] \<Longrightarrow> \<not> isWhitespace (last s) \<Longrightarrow> trim s \<noteq> []"
  by (metis trim_last_nonws dropWhile_eq_Nil_conv last_in_set)

lemma trim_suffix: "s \<noteq> [] \<Longrightarrow> \<not> isWhitespace (last s) \<Longrightarrow> suffix (trim s) s"
  by (simp add: trim_last_nonws suffix_dropWhile)

lemma trim_id: "s \<noteq> [] \<Longrightarrow> \<not> isWhitespace (hd s) \<Longrightarrow> \<not> isWhitespace (last s) \<Longrightarrow> trim s = s"
  by (cases s) (simp_all add: trim_last_nonws)

lemma trim_hd_last:
  "trim s \<noteq> [] \<Longrightarrow> \<not> isWhitespace (hd (trim s)) \<and> \<not> isWhitespace (last (trim s))"
  by (metis dropWhile_eq_self_iff hd_dropWhile last_appendR last_rev
    rev.simps(1) rev_swap takeWhile_dropWhile_id trim_def)

lemma trim_idem: "trim (trim s) = trim s"
proof (cases "trim s = []")
  case True
  moreover have "trim [] = []" by (simp add: trim_def)
  ultimately show ?thesis by simp
next
  case False
  then show ?thesis using trim_hd_last [OF False] by (simp add: trim_id)
qed

lemma slice_to_end:
  assumes "start < int (length t)" "t \<noteq> []"
  shows "\<exists>k. k < length t \<and> slice t start (int (length t)) = drop k t"
proof (cases "start < 0")
  case True
  then have "slice t start (int (length t)) = drop (nat (max (int (length t) + start) 0)) t"
    by (simp add: slice_def Let_def)
  moreover have "nat (max (int (length t) + start) 0) < length t"
    using True assms(2) by (cases t) (auto simp: max_def)
  ultimately show ?thesis by blast
next
  case False
  then have "slice t start (int (length t)) = drop (nat start) t"
    using assms by (simp add: slice_def Let_def)
  moreover have "nat start < length t" using False assms by auto
  ultimately show ?thesis by blast
qed

lemma end_chunk:
  assumes "t \<noteq> []" "\<not> isWhitespace (last t)" "start < int (length t)"
  shows "trim (slice t start (int (length t))) \<noteq> []"
    and "suffix (trim (slice t start (int (length t)))) t"
proof -
  obtain k where k: "k < length t" "slice t start (int (length t)) = drop k t"
    using slice_to_end [OF assms(3) assms(1)] by blast
  have ne: "drop k t \<noteq> []" using k by simp
  have l: "last (drop k t) = last t" using k by simp
  show "trim (slice t start (int (length t))) \<noteq> []"
    using trim_nonempty [OF ne] l assms(2) k(2) by simp
  have "suffix (trim (drop k t)) (drop k t)"
    using trim_suffix [OF ne] l assms(2) by simp
  then show "suffix (trim (slice t start (int (length t)))) t"
    using k(2) suffix_drop suffix_order.trans by metis
qed

lemma chunkLoop_stall:
  assumes "t \<noteq> []" "\<not> isWhitespace (last t)"
  shows "length acc \<le> 50 \<Longrightarrow>
    chunkLoop t 1000 200 50 (int (length t) - 200) acc =
      Some (acc @ replicate (50 - length acc) (stallChunk t))"
proof (induction "50 - length acc" arbitrary: acc)
  case 0
  then have "length acc = 50" by simp
  then show ?case by (subst chunkLoop.simps) simp
next
  case (Suc n)
  then have lt: "length acc < 50" by simp
  have ne: "stallChunk t \<noteq> []"
    unfolding stallChunk_def using end_chunk(1) [OF assms, of "int (length t) - 200"] by simp
  have "chunkLoop t 1000 200 50 (int (length t) - 200) acc =
        chunkLoop t 1000 200 50 (int (length t) - 200) (acc @ [stallChunk t])"
    using lt ne by (subst chunkLoop.simps) (simp add: Let_def stallChunk_def min_def)
  also have "\<dots> = Some ((acc @ [stallChunk t]) @ replicate (50 - length (acc @ [stallChunk t])) (stallChunk t))"
    using Suc lt by (intro Suc.hyps(1)) simp_all
  also have "\<dots> = Some (acc @ replicate (50 - length acc) (stallChunk t))"
    using lt by (simp add: replicate_app_Cons_same Suc_diff_Suc flip: replicate_Suc)
  finally show ?case .
qed


lemma chunkLoop_advance:
  assumes t: "t \<noteq> []" "\<not> isWhitespace (last t)"
  shows "0 \<le> start \<Longrightarrow> start < int (length t) \<Longrightarrow> length acc \<le> 50 \<Longrightarrow>
    \<exists>more. chunkLoop t 1000 200 50 start acc = Some (acc @ more) \<and>
      length (acc @ more) = 50 \<and>
      (\<forall>c \<in> set more. c \<noteq> [] \<and> trim c = c) \<and>
      (length acc \<le> 49 \<and> int (length t) \<le> start + 1000 + 800 * (49 - int (length acc))
         \<longrightarrow> more \<noteq> [] \<and> suffix (last more) t)"
proof (induction "nat (int (length t) - start)" arbitrary: start acc rule: less_induct)
  case less
  let ?L = "int (length t)"
  show ?case
  proof (cases "length acc = 50")
    case True
    then have "chunkLoop t 1000 200 50 start acc = Some acc"
      by (subst chunkLoop.simps) simp
    then show ?thesis using True by simp
  next
    case False
    then have lt: "length acc < 50" using less.prems by simp
    show ?thesis
    proof (cases "start + 1000 < ?L")
      case True
      let ?c = "trim (slice t start (start + 1000))"
      let ?acc' = "if length ?c > 0 then acc @ [?c] else acc"
      have step: "chunkLoop t 1000 200 50 start acc =
                  chunkLoop t 1000 200 50 (start + 800) ?acc'"
        using lt True less.prems by (subst chunkLoop.simps) (simp add: Let_def min_def add.commute)
      have "nat (?L - (start + 800)) < nat (?L - start)" using True by simp
      moreover have "0 \<le> start + 800" "start + 800 < ?L" "length ?acc' \<le> 50"
        using True less.prems lt by auto
      ultimately obtain more' where m:
        "chunkLoop t 1000 200 50 (start + 800) ?acc' = Some (?acc' @ more')"
        "length (?acc' @ more') = 50"
        "\<forall>c \<in> set more'. c \<noteq> [] \<and> trim c = c"
        "length ?acc' \<le> 49 \<and> ?L \<le> (start + 800) + 1000 + 800 * (49 - int (length ?acc'))
           \<longrightarrow> more' \<noteq> [] \<and> suffix (last more') t"
        using less.hyps [of "start + 800" ?acc'] by blast
      let ?more = "(if length ?c > 0 then [?c] else []) @ more'"
      have e: "?acc' @ more' = acc @ ?more" by simp
      have 1: "chunkLoop t 1000 200 50 start acc = Some (acc @ ?more)"
        using step m(1) e by simp
      have 2: "length (acc @ ?more) = 50" using m(2) e by simp
      have 3: "\<forall>c \<in> set ?more. c \<noteq> [] \<and> trim c = c"
        using m(3) by (auto simp: trim_idem)
      have 4: "length acc \<le> 49 \<and> ?L \<le> start + 1000 + 800 * (49 - int (length acc))
         \<longrightarrow> ?more \<noteq> [] \<and> suffix (last ?more) t"
      proof
        assume a: "length acc \<le> 49 \<and> ?L \<le> start + 1000 + 800 * (49 - int (length acc))"
        then have "length acc \<le> 48" using True by auto
        then have "length ?acc' \<le> 49 \<and>
            ?L \<le> (start + 800) + 1000 + 800 * (49 - int (length ?acc'))"
          using a by auto
        then have "more' \<noteq> [] \<and> suffix (last more') t" using m(4) by blast
        then show "?more \<noteq> [] \<and> suffix (last ?more) t" by simp
      qed
      show ?thesis using 1 2 3 4 by blast
    next
      case False
      let ?c = "trim (slice t start ?L)"
      have ne: "?c \<noteq> []" and suf: "suffix ?c t"
        using end_chunk [OF t less.prems(2)] by simp_all
      have step: "chunkLoop t 1000 200 50 start acc =
                  chunkLoop t 1000 200 50 (?L - 200) (acc @ [?c])"
        using lt False less.prems ne by (subst chunkLoop.simps) (simp add: Let_def min_def)
      have st: "chunkLoop t 1000 200 50 (?L - 200) (acc @ [?c]) =
            Some ((acc @ [?c]) @ replicate (50 - length (acc @ [?c])) (stallChunk t))"
        using lt by (intro chunkLoop_stall [OF t]) simp
      let ?more = "[?c] @ replicate (49 - length acc) (stallChunk t)"
      have sne: "stallChunk t \<noteq> []" and ssuf: "suffix (stallChunk t) t"
        unfolding stallChunk_def using end_chunk [OF t, of "?L - 200"] by simp_all
      have 1: "chunkLoop t 1000 200 50 start acc = Some (acc @ ?more)"
        using step st by simp
      have 2: "length (acc @ ?more) = 50" using lt by simp
      have 3: "\<forall>c \<in> set ?more. c \<noteq> [] \<and> trim c = c"
        using ne sne by (auto simp: trim_idem stallChunk_def)
      have 4: "?more \<noteq> [] \<and> suffix (last ?more) t"
        using suf ssuf by (cases "49 - length acc") simp_all
      show ?thesis using 1 2 3 4 by blast
    qed
  qed
qed


lemma trim_text_last: "trim text \<noteq> [] \<Longrightarrow> \<not> isWhitespace (last (trim text))"
  using trim_hd_last by blast

lemma slice_whole: "slice t 0 (int (length t)) = t"
  by (simp add: slice_def)

lemma chunkLoop_short:
  assumes t: "t \<noteq> []" "\<not> isWhitespace (last t)" "trim t = t" "length t \<le> 1000"
  shows "chunkLoop t 1000 200 50 0 [] = Some (t # replicate 49 (stallChunk t))"
proof -
  have e: "min 1000 (int (length t)) = int (length t)" using t(4) by simp
  have "chunkLoop t 1000 200 50 0 [] = chunkLoop t 1000 200 50 (int (length t) - 200) [t]"
    using t(1,3) by (subst chunkLoop.simps) (simp add: Let_def e slice_whole)
  also have "\<dots> = Some ([t] @ replicate (50 - length [t]) (stallChunk t))"
    by (intro chunkLoop_stall t) simp
  finally show ?thesis by simp
qed

lemma chunkLoop_windows:
  assumes nows: "\<forall>c \<in> set t. \<not> isWhitespace c" and long: "40200 < length t"
  shows "length acc \<le> 50 \<Longrightarrow>
    chunkLoop t 1000 200 50 (800 * int (length acc)) acc =
      Some (acc @ map (\<lambda>k. take 1000 (drop (800 * k) t)) [length acc..<50])"
proof (induction "50 - length acc" arbitrary: acc)
  case 0
  then have "length acc = 50" by simp
  then show ?case by (subst chunkLoop.simps) simp
next
  case (Suc n)
  then have lt: "length acc < 50" by simp
  let ?k = "length acc"
  let ?c = "take 1000 (drop (800 * ?k) t)"
  have sl: "slice t (800 * int ?k) (800 * int ?k + 1000) = ?c"
    using lt long by (simp add: slice_def Let_def nat_mult_distrib nat_add_distrib)
  have cne: "?c \<noteq> []" using lt long by simp
  have "set ?c \<subseteq> set t" by (meson set_drop_subset set_take_subset subset_trans)
  then have "\<not> isWhitespace (hd ?c)" "\<not> isWhitespace (last ?c)"
    using nows cne by (meson hd_in_set last_in_set subsetD)+
  then have tr: "trim ?c = ?c" using cne by (intro trim_id) 
  have "chunkLoop t 1000 200 50 (800 * int ?k) acc =
        chunkLoop t 1000 200 50 (800 * int (length (acc @ [?c]))) (acc @ [?c])"
    using lt long sl tr cne by (subst chunkLoop.simps) (simp add: Let_def min_def algebra_simps)
  also have "\<dots> = Some ((acc @ [?c]) @ map (\<lambda>k. take 1000 (drop (800 * k) t)) [length (acc @ [?c])..<50])"
    using Suc lt by (intro Suc.hyps(1)) simp_all
  also have "\<dots> = Some (acc @ map (\<lambda>k. take 1000 (drop (800 * k) t)) [?k..<50])"
    using lt by (simp add: upt_conv_Cons)
  finally show ?case .
qed

lemma chunkText_abc: "chunkTextDefault ''abc'' = Some (replicate 50 ''abc'')"
proof -
  have tr: "trim ''abc'' = ''abc''" by (simp add: trim_def isWhitespace_def)
  have st: "stallChunk ''abc'' = ''abc''"
    by (simp add: stallChunk_def slice_def tr)
  have "chunkLoop ''abc'' 1000 200 50 0 [] = Some (''abc'' # replicate 49 (stallChunk ''abc''))"
    by (rule chunkLoop_short) (simp_all add: tr isWhitespace_def)
  then show ?thesis
    by (simp add: chunkTextDefault_def chunkText_def tr st flip: replicate_Suc)
qed

lemma chunkText_long_text: "chunkTextDefault (replicate 40200 (CHR ''a'') @ ''b'') = Some (replicate 50 (replicate 1000 (CHR ''a'')))"
proof -
  let ?t = "replicate 40200 (CHR ''a'') @ ''b''"
  have nows: "\<forall>c \<in> set ?t. \<not> isWhitespace c" by (auto simp: isWhitespace_def)
  have tr: "trim ?t = ?t" by (rule trim_id) (simp_all add: isWhitespace_def hd_append)
  have "chunkLoop ?t 1000 200 50 (800 * int (length ([]::string list))) [] =
      Some ([] @ map (\<lambda>k. take 1000 (drop (800 * k) ?t)) [length ([]::string list)..<50])"
    by (rule chunkLoop_windows [OF nows]) simp_all
  moreover have "map (\<lambda>k. take 1000 (drop (800 * k) ?t)) [0..<50] =
      map (\<lambda>k. replicate 1000 (CHR ''a'')) [0..<50]"
    by (rule map_cong) (auto simp: min_def)
  ultimately have "chunkLoop ?t 1000 200 50 0 [] = Some (replicate 50 (replicate 1000 (CHR ''a'')))"
    by (simp add: map_replicate_const)
  then show ?thesis
    by (simp add: chunkTextDefault_def chunkText_def tr)
qed


text \<open>
  The loop is not total in its parameters: with \<open>chunkSize = 1\<close> and \<open>overlap = 2\<close>
  the start index of the text \<open>a b\<close> runs to minus infinity over empty windows, and
  \<open>chunkText\<close> never returns. The route calls \<open>chunkText\<close> with the default parameters
  only.
\<close>

lemma chunkLoop_runs_forever:
  assumes "start \<le> -5" "length acc < 50"
  shows "chunkLoop ''a b'' 1 2 50 start acc = None"
proof -
  define P where "P = (\<lambda>t cs ov mc s a (y::string list).
     \<not> (t = ''a b'' \<and> cs = (1::int) \<and> ov = (2::int) \<and> mc = (50::int) \<and> s \<le> (-5::int) \<and>
        length (a::string list) < 50))"
  have "P t cs ov mc s a y" if "chunkLoop t cs ov mc s a = Some y" for t cs ov mc s a y
  proof (rule chunkLoop.raw_induct [where P = P, OF _ that])
    fix f t cs ov mc s a y
    assume IH: "\<And>t cs ov mc s a y. f t cs ov mc s a = Some y \<Longrightarrow> P t cs ov mc s a y"
      and step: "(if s < int (length t) \<and> int (length a) < mc
           then let endPos = min (s + cs) (int (length t));
                    chunk = slice t s endPos; trimmedChunk = trim chunk
                in f t cs ov mc (endPos - ov)
                    (if 0 < length trimmedChunk then a @ [trimmedChunk] else a)
           else Some a) = Some y"
    show "P t cs ov mc s a y"
      unfolding P_def
    proof
      assume r: "t = ''a b'' \<and> cs = 1 \<and> ov = 2 \<and> mc = 50 \<and> s \<le> -5 \<and> length a < 50"
      then have sl: "slice t s (s + 1) = []" by (simp add: slice_def)
      have "f ''a b'' 1 2 50 (s - 1) a = Some y"
        using step r sl by (simp add: Let_def trim_def min_def)
      then have "P ''a b'' 1 2 50 (s - 1) a y" by (rule IH)
      then show False using r by (simp add: P_def)
    qed
  qed
  then show ?thesis using assms
    by (cases "chunkLoop ''a b'' 1 2 50 start acc") (auto simp: P_def)
qed

lemma chunkText_runs_forever: "chunkText ''a b'' 1 2 50 = None"
proof -
  have tr: "trim ''a b'' = ''a b''" by (simp add: trim_def isWhitespace_def)
  have "chunkLoop ''a b'' 1 2 50 0 [] = chunkLoop ''a b'' 1 2 50 (-1) [''a'']"
    by (subst chunkLoop.simps) (simp add: slice_def trim_def isWhitespace_def)
  also have "\<dots> = chunkLoop ''a b'' 1 2 50 (-2) [''a'']"
    by (subst chunkLoop.simps) (simp add: slice_def trim_def isWhitespace_def)
  also have "\<dots> = chunkLoop ''a b'' 1 2 50 (-3) [''a'']"
    by (subst chunkLoop.simps) (simp add: slice_def trim_def isWhitespace_def)
  also have "\<dots> = chunkLoop ''a b'' 1 2 50 (-4) [''a'', ''a'']"
    by (subst chunkLoop.simps) (simp add: slice_def trim_def isWhitespace_def Let_def)
  also have "\<dots> = chunkLoop ''a b'' 1 2 50 (-5) [''a'', ''a'']"
    by (subst chunkLoop.simps) (simp add: slice_def trim_def isWhitespace_def)
  also have "\<dots> = None" by (rule chunkLoop_runs_forever) simp_all
  finally show ?thesis by (simp add: chunkText_def tr)
qed

lemma stallChunk_drop:
  "stallChunk t = trim (drop (if 200 \<le> length t then length t - 200 else 2 * length t - 200) t)"
proof (cases "200 \<le> length t")
  case True
  then show ?thesis by (simp add: stallChunk_def slice_def Let_def nat_diff_distrib)
next
  case False
  have "nat (max (int (length t) + (int (length t) - 200)) 0) = 2 * length t - 200" by linarith
  then show ?thesis using False by (simp add: stallChunk_def slice_def Let_def)
qed

lemma window_count:
  fixes L k :: nat
  assumes "j = (L - 1000 + 799) div 800"
  shows "k < j \<Longrightarrow> 800 * k + 1000 < L" "L \<le> 800 * j + 1000" "0 < L \<Longrightarrow> 800 * j < L"
proof -
  define m where "m = L - 1000 + 799"
  have lo: "800 * j \<le> m" unfolding assms m_def [symmetric] by simp
  have hi: "m < 800 + 800 * j" unfolding assms m_def [symmetric] by (rule dividend_less_times_div) simp
  show "k < j \<Longrightarrow> 800 * k + 1000 < L" using lo unfolding m_def by linarith
  show "L \<le> 800 * j + 1000" using hi unfolding m_def by linarith
  show "0 < L \<Longrightarrow> 800 * j < L"
  proof (cases j)
    case 0
    then show "0 < L \<Longrightarrow> 800 * j < L" by simp
  next
    case (Suc i)
    then have "800 \<le> 800 * j" by simp
    then show "800 * j < L" using lo unfolding m_def by linarith
  qed
qed

lemma slice_window: "slice t (800 * int k) (800 * int k + 1000) = take 1000 (drop (800 * k) t)"
  by (simp add: slice_def Let_def min_def nat_mult_distrib nat_add_distrib)

lemma chunkLoop_result:
  assumes t: "t \<noteq> []" "\<not> isWhitespace (last t)"
    and j: "j = (length t - 1000 + 799) div 800"
  shows "k \<le> j \<Longrightarrow> length acc \<le> 50 \<Longrightarrow>
    chunkLoop t 1000 200 50 (800 * int k) acc =
      Some (take 50 (acc @ filter (\<lambda>c. c \<noteq> []) (map (\<lambda>k. trim (take 1000 (drop (800 * k) t))) [k..<Suc j])
                     @ replicate 50 (stallChunk t)))"
proof (induction "j - k" arbitrary: k acc)
  case 0
  then have kj: "k = j" by simp
  let ?L = "length t"
  let ?W = "\<lambda>k. trim (take 1000 (drop (800 * k) t))"
  have L: "0 < ?L" using t by simp
  have b: "?L \<le> 800 * j + 1000" "800 * j < ?L" using window_count [OF j] L by simp_all
  show ?case
  proof (cases "length acc = 50")
    case True
    then have "chunkLoop t 1000 200 50 (800 * int k) acc = Some acc"
      by (subst chunkLoop.simps) simp
    then show ?thesis using True by simp
  next
    case False
    then have lt: "length acc < 50" using 0 by simp
    have sl: "slice t (800 * int j) (int ?L) = take 1000 (drop (800 * j) t)"
      using b by (simp add: slice_def Let_def min_def nat_mult_distrib)
    have ne: "?W j \<noteq> []"
      using end_chunk(1) [OF t, of "800 * int j"] b sl by simp
    have e: "min (800 * int j + 1000) (int ?L) = int ?L" using b by simp
    have "chunkLoop t 1000 200 50 (800 * int k) acc =
          chunkLoop t 1000 200 50 (int ?L - 200) (acc @ [?W j])"
      using lt b ne sl unfolding kj
      by (subst chunkLoop.simps) (simp add: Let_def e)
    also have "\<dots> = Some ((acc @ [?W j]) @ replicate (50 - length (acc @ [?W j])) (stallChunk t))"
      using lt by (intro chunkLoop_stall [OF t]) simp
    also have "(acc @ [?W j]) @ replicate (50 - length (acc @ [?W j])) (stallChunk t) =
        take 50 (acc @ filter (\<lambda>c. c \<noteq> []) (map ?W [k..<Suc j]) @ replicate 50 (stallChunk t))"
    proof -
      have "50 - length acc = Suc (49 - length acc)" using lt by simp
      then show ?thesis using lt ne unfolding kj by (simp add: min_def)
    qed
    finally show ?thesis .
  qed
next
  case (Suc n)
  then have kj: "k < j" by simp
  let ?L = "length t"
  let ?W = "\<lambda>k. trim (take 1000 (drop (800 * k) t))"
  have a: "800 * k + 1000 < ?L" using window_count(1) [OF j kj] .
  show ?case
  proof (cases "length acc = 50")
    case True
    then have "chunkLoop t 1000 200 50 (800 * int k) acc = Some acc"
      by (subst chunkLoop.simps) simp
    then show ?thesis using True by simp
  next
    case False
    then have lt: "length acc < 50" using Suc.prems by simp
    let ?acc' = "if ?W k \<noteq> [] then acc @ [?W k] else acc"
    have e: "min (800 * int k + 1000) (int ?L) = 800 * int k + 1000" using a by simp
    have sl: "slice t (800 * int k) (800 * int k + 1000) = take 1000 (drop (800 * k) t)"
      by (rule slice_window)
    have sl': "slice t (800 * int k) (1000 + 800 * int k) = take 1000 (drop (800 * k) t)"
      using sl by (simp only: add.commute)
    have nx: "800 * int k + 800 = 800 * int (Suc k)" by simp
    have "chunkLoop t 1000 200 50 (800 * int k) acc =
          chunkLoop t 1000 200 50 (800 * int k + 800) ?acc'"
      using lt a
      by (subst chunkLoop.simps) (simp add: Let_def e sl sl' add.commute)
    also have "\<dots> = chunkLoop t 1000 200 50 (800 * int (Suc k)) ?acc'"
      by (simp only: nx)
    also have "\<dots> = Some (take 50 (?acc' @ filter (\<lambda>c. c \<noteq> []) (map ?W [Suc k..<Suc j])
                     @ replicate 50 (stallChunk t)))"
      using Suc kj lt by (intro Suc.hyps(1)) auto
    also have "?acc' @ filter (\<lambda>c. c \<noteq> []) (map ?W [Suc k..<Suc j]) @ replicate 50 (stallChunk t) =
        acc @ filter (\<lambda>c. c \<noteq> []) (map ?W [k..<Suc j]) @ replicate 50 (stallChunk t)"
      using kj by (simp add: upt_conv_Cons)
    finally show ?thesis by simp
  qed
qed


lemma take_padded: "length (take 50 (xs @ replicate 50 x)) = 50"
  by (simp add: min_def)

lemma chunkText_tail_window:
  "chunkTextDefault (replicate 100 (CHR ''a'') @ replicate 50 (CHR ''b'')) =
     Some ((replicate 100 (CHR ''a'') @ replicate 50 (CHR ''b'')) # replicate 49 (replicate 50 (CHR ''b'')))"
proof -
  let ?t = "replicate 100 (CHR ''a'') @ replicate 50 (CHR ''b'')"
  have tr: "trim ?t = ?t" by (rule trim_id) (simp_all add: isWhitespace_def hd_append)
  have "trim (replicate 50 (CHR ''b'')) = replicate 50 (CHR ''b'')"
    by (rule trim_id) (simp_all add: isWhitespace_def)
  then have st: "stallChunk ?t = replicate 50 (CHR ''b'')" by (simp add: stallChunk_drop)
  have "chunkLoop ?t 1000 200 50 0 [] = Some (?t # replicate 49 (stallChunk ?t))"
    by (rule chunkLoop_short) (simp_all add: tr isWhitespace_def)
  then show ?thesis by (simp add: chunkTextDefault_def chunkText_def tr st)
qed

text \<open>
  Claim C5, as amended. \<open>chunkText\<close> with the default parameters returns on every
  text. When the trimmed text \<open>t\<close> is not empty it returns exactly 50 chunks: the
  non-empty trimmed windows of 1000 characters at the offsets 0, 800, 1600, ... up to
  the first window that reaches the end of \<open>t\<close>, followed by copies of the chunk of the
  window \<open>[length - 200, length)\<close>, cut after 50 chunks. From \<open>start = length - 200\<close> the
  loop never moves and only the bound of 50 chunks stops it. The repeated chunk is not
  empty; it is the trimmed last 200 characters of \<open>t\<close> when \<open>t\<close> has 200 characters or
  more, and below that what \<open>slice\<close> makes of a negative start: \<open>t\<close> from the index
  \<open>2 * length - 200\<close> on (all of \<open>t\<close> up to 100 characters).
\<close>

theorem chunkText_default_result:
  "\<exists>cs. chunkTextDefault text = Some cs \<and>
     (trim text = [] \<longrightarrow> cs = []) \<and>
     (trim text \<noteq> [] \<longrightarrow>
        length cs = 50 \<and>
        cs = take 50
               (filter (\<lambda>c. c \<noteq> [])
                  (map (\<lambda>k. trim (take 1000 (drop (800 * k) (trim text))))
                     [0..<Suc ((length (trim text) - 1000 + 799) div 800)])
                @ replicate 50 (stallChunk (trim text))) \<and>
        (length acc \<le> 50 \<longrightarrow>
           chunkLoop (trim text) 1000 200 50 (int (length (trim text)) - 200) acc =
             Some (acc @ replicate (50 - length acc) (stallChunk (trim text)))) \<and>
        stallChunk (trim text) \<noteq> [] \<and>
        stallChunk (trim text) =
          trim (drop (if 200 \<le> length (trim text) then length (trim text) - 200
                      else 2 * length (trim text) - 200) (trim text)))"
proof (cases "trim text = []")
  case True
  then show ?thesis by (simp add: chunkTextDefault_def chunkText_def)
next
  case False
  let ?t = "trim text"
  let ?cs = "take 50
               (filter (\<lambda>c. c \<noteq> [])
                  (map (\<lambda>k. trim (take 1000 (drop (800 * k) ?t)))
                     [0..<Suc ((length ?t - 1000 + 799) div 800)])
                @ replicate 50 (stallChunk ?t))"
  have tx: "text \<noteq> []" using False by (auto simp: trim_def)
  have lw: "\<not> isWhitespace (last ?t)" by (rule trim_text_last [OF False])
  have "chunkLoop ?t 1000 200 50 (800 * int 0) [] = Some (take 50 ([] @ filter (\<lambda>c. c \<noteq> [])
          (map (\<lambda>k. trim (take 1000 (drop (800 * k) ?t))) [0..<Suc ((length ?t - 1000 + 799) div 800)])
          @ replicate 50 (stallChunk ?t)))"
    by (rule chunkLoop_result [OF False lw refl]) simp_all
  then have r: "chunkTextDefault text = Some ?cs"
    using False tx by (simp add: chunkTextDefault_def chunkText_def)
  have len: "length ?cs = 50" by (rule take_padded)
  have stall: "length acc \<le> 50 \<longrightarrow>
      chunkLoop ?t 1000 200 50 (int (length ?t) - 200) acc =
        Some (acc @ replicate (50 - length acc) (stallChunk ?t))"
    using chunkLoop_stall [OF False lw] by blast
  have ne: "stallChunk ?t \<noteq> []"
    unfolding stallChunk_def using end_chunk(1) [OF False lw, of "int (length ?t) - 200"] by simp
  show ?thesis using False r len stall ne stallChunk_drop [of ?t] by blast
qed

theorem chunkText_default_result_witness:
  "trim ''abc'' \<noteq> [] \<and> trim ''   '' = [] \<and>
   chunkTextDefault ''   '' = Some [] \<and>
   chunkTextDefault ''abc'' = Some (replicate 50 ''abc'') \<and>
   chunkLoop ''abc'' 1000 200 50 (- 197) [] = Some (replicate 50 ''abc'') \<and>
   stallChunk ''abc'' = ''abc''"
proof -
  have tr: "trim ''abc'' = ''abc''" "trim ''   '' = []" by (simp_all add: trim_def isWhitespace_def)
  have st: "stallChunk ''abc'' = ''abc''" by (simp add: stallChunk_def slice_def tr)
  have rp: "''abc'' # replicate 49 ''abc'' = replicate 50 ''abc''"
    using replicate_Suc [of 49 "''abc''"] by simp
  show ?thesis
    using chunkText_default_result [of "''abc''" "[]"] chunkText_default_result [of "''   ''" "[]"]
    by (simp add: tr st rp)
qed

text \<open>
  Claim C5 as stated fails twice. With \<open>chunkSize = 1\<close> and \<open>overlap = 2\<close> the call
  \<open>chunkText("a b", 1, 2, 50)\<close> never returns. With the default parameters a text of 150
  characters gives the whole text followed by 49 copies of its last 50 characters:
  the repeated chunk is neither 200 characters long nor the whole text.
\<close>

theorem chunkText_terminates_counterexample:
  "chunkText ''a b'' 1 2 50 = None \<and>
   chunkTextDefault (replicate 100 (CHR ''a'') @ replicate 50 (CHR ''b'')) =
     Some ((replicate 100 (CHR ''a'') @ replicate 50 (CHR ''b'')) # replicate 49 (replicate 50 (CHR ''b'')))"
  using chunkText_runs_forever chunkText_tail_window by simp

text \<open>
  Claim C4, as amended. \<open>chunkText\<close> with the default parameters returns, and every
  chunk it returns is non-empty and trimmed. When the trimmed text has at most
  \<open>1000 + 49 * 800 = 40200\<close> characters, the last chunk ends where the trimmed text
  ends. When it has fewer than 1000 characters, the first chunk is the trimmed text.
\<close>

theorem chunkText_chunks_trimmed_aligned:
  "\<exists>cs. chunkTextDefault text = Some cs \<and>
     (\<forall>c \<in> set cs. c \<noteq> [] \<and> trim c = c) \<and>
     (0 < length (trim text) \<and> length (trim text) \<le> 40200 \<longrightarrow>
        cs \<noteq> [] \<and> suffix (last cs) (trim text)) \<and>
     (0 < length (trim text) \<and> length (trim text) < 1000 \<longrightarrow> hd cs = trim text)"
proof (cases "trim text = []")
  case True
  then show ?thesis by (simp add: chunkTextDefault_def chunkText_def)
next
  case False
  let ?t = "trim text"
  have tx: "text \<noteq> []" using False by (auto simp: trim_def)
  have lw: "\<not> isWhitespace (last ?t)" by (rule trim_text_last [OF False])
  obtain more where m: "chunkLoop ?t 1000 200 50 0 ([] @ []) = Some ([] @ more)"
      "\<forall>c \<in> set more. c \<noteq> [] \<and> trim c = c"
      "length ([]::string list) \<le> 49 \<and> int (length ?t) \<le> 0 + 1000 + 800 * (49 - int (length ([]::string list)))
         \<longrightarrow> more \<noteq> [] \<and> suffix (last more) ?t"
    using chunkLoop_advance [OF False lw, of 0 "[]"] False by auto
  have r: "chunkTextDefault text = Some more"
    using m(1) False tx by (simp add: chunkTextDefault_def chunkText_def)
  have a: "0 < length ?t \<and> length ?t \<le> 40200 \<longrightarrow> more \<noteq> [] \<and> suffix (last more) ?t"
    using m(3) by simp
  have b: "0 < length ?t \<and> length ?t < 1000 \<longrightarrow> hd more = ?t"
  proof
    assume "0 < length ?t \<and> length ?t < 1000"
    then have "chunkLoop ?t 1000 200 50 0 [] = Some (?t # replicate 49 (stallChunk ?t))"
      using False lw by (intro chunkLoop_short) (simp_all add: trim_idem)
    then show "hd more = ?t" using m(1) by auto
  qed
  show ?thesis using r m(2) a b by blast
qed

theorem chunkText_chunks_trimmed_aligned_witness:
  "0 < length (trim '' hi '') \<and> length (trim '' hi '') < 1000 \<and>
   (\<exists>cs. chunkTextDefault '' hi '' = Some cs \<and> cs \<noteq> [] \<and> hd cs = ''hi'' \<and>
          suffix (last cs) ''hi'' \<and> (\<forall>c \<in> set cs. c \<noteq> [] \<and> trim c = c))"
proof -
  have tr: "trim '' hi '' = ''hi''" by (simp add: trim_def isWhitespace_def)
  show ?thesis using chunkText_chunks_trimmed_aligned [of "'' hi ''"] by (auto simp add: tr)
qed

text \<open>
  Claim C4 as stated fails twice. A text of 3 characters gives 50 chunks, not one. A
  text of 40201 characters that ends in \<open>b\<close> gives 50 chunks of \<open>a\<close>s: the 50-chunk
  limit stops the window before it reaches the end of the text.
\<close>

theorem chunkText_single_chunk_counterexample:
  "0 < length (trim ''abc'') \<and> length (trim ''abc'') < 1000 \<and>
   chunkTextDefault ''abc'' = Some (replicate 50 ''abc'') \<and>
   chunkTextDefault (replicate 40200 (CHR ''a'') @ ''b'') = Some (replicate 50 (replicate 1000 (CHR ''a'')))"
  using chunkText_abc chunkText_long_text by (simp add: trim_def isWhitespace_def)

section \<open>Properties of the embedding client\<close>

lemma indexOf_eq_iff:
  "indexOf xs x = int i \<longleftrightarrow> i < length xs \<and> xs ! i = x \<and> (\<forall>j < i. xs ! j \<noteq> x)"
proof -
  have "find (\<lambda>i. xs ! i = x) [0..<length xs] = Some i \<longleftrightarrow>
        i < length xs \<and> xs ! i = x \<and> (\<forall>j < i. xs ! j \<noteq> x)"
    by (auto simp: find_Some_iff)
  then show ?thesis by (auto simp: indexOf_def split: option.splits)
qed

lemma firstOccurrences_set: "set (firstOccurrences xs) = set xs"
proof
  show "set (firstOccurrences xs) \<subseteq> set xs" by (auto simp: firstOccurrences_def)
  show "set xs \<subseteq> set (firstOccurrences xs)"
  proof
    fix x assume "x \<in> set xs"
    then obtain k where k: "k < length xs \<and> xs ! k = x" by (auto simp: in_set_conv_nth)
    define i where "i = (LEAST i. i < length xs \<and> xs ! i = x)"
    have i: "i < length xs \<and> xs ! i = x" unfolding i_def using k by (rule LeastI)
    have "\<And>j. j < i \<Longrightarrow> \<not> (j < length xs \<and> xs ! j = x)"
      unfolding i_def by (rule not_less_Least)
    then have "\<forall>j < i. xs ! j \<noteq> x" using i by auto
    then have "indexOf xs (xs ! i) = int i" using i by (simp add: indexOf_eq_iff)
    then have "i \<in> set (filter (\<lambda>i. indexOf xs (xs ! i) = int i) [0..<length xs])"
      using i by simp
    then have "xs ! i \<in> set (firstOccurrences xs)"
      unfolding firstOccurrences_def by (simp only: set_map image_eqI)
    then show "x \<in> set (firstOccurrences xs)" using i by simp
  qed
qed

lemma firstOccurrences_distinct: "distinct (firstOccurrences xs)"
proof -
  let ?P = "\<lambda>i. indexOf xs (xs ! i) = int i"
  have "inj_on (\<lambda>i. xs ! i) (set (filter ?P [0..<length xs]))"
  proof (rule inj_onI)
    fix i j
    assume i: "i \<in> set (filter ?P [0..<length xs])" and j: "j \<in> set (filter ?P [0..<length xs])"
      and eq: "xs ! i = xs ! j"
    have pi: "\<forall>k < i. xs ! k \<noteq> xs ! i" using i by (simp add: indexOf_eq_iff)
    have pj: "\<forall>k < j. xs ! k \<noteq> xs ! j" using j by (simp add: indexOf_eq_iff)
    show "i = j"
    proof (rule ccontr)
      assume "i \<noteq> j"
      then consider "i < j" | "j < i" by linarith
      then show False using pi pj eq by cases auto
    qed
  qed
  then show ?thesis unfolding firstOccurrences_def by (simp add: distinct_map)
qed

lemma validateAndCleanChunks_first:
  "validateAndCleanChunks texts = firstOccurrences (map trim (filter (\<lambda>c. 3 \<le> length (trim c)) texts))"
  by (simp add: validateAndCleanChunks_def)

lemma validateAndCleanChunks_card:
  "length (validateAndCleanChunks texts) = card (trim ` {c \<in> set texts. 3 \<le> length (trim c)})"
proof -
  have "length (validateAndCleanChunks texts) = card (set (validateAndCleanChunks texts))"
    by (simp add: validateAndCleanChunks_first firstOccurrences_distinct distinct_card)
  then show ?thesis by (simp add: validateAndCleanChunks_first firstOccurrences_set)
qed

lemma dummyLoop_length: "length (fst (dummyLoop e n (acc, fx))) = length acc + n"
  by (induction n arbitrary: acc fx) (simp_all add: generateSingleDummyEmbedding_def)

lemma dummyLoop_requests: "requests (snd (dummyLoop e n (acc, fx))) = requests fx"
  by (induction n arbitrary: acc fx) (simp_all add: generateSingleDummyEmbedding_def)

lemma dummyLoop_dims:
  "\<forall>v \<in> set acc. length v = 1536 \<Longrightarrow> \<forall>v \<in> set (fst (dummyLoop e n (acc, fx))). length v = 1536"
proof (induction n arbitrary: acc fx)
  case 0
  then show ?case by simp
next
  case (Suc n)
  let ?v = "map (mathRandom e) [randomDrawn fx..<randomDrawn fx + 1536]"
  have "\<forall>v \<in> set (acc @ [?v]). length v = 1536" using Suc.prems by simp
  from Suc.IH [OF this] show ?case by (simp add: generateSingleDummyEmbedding_def)
qed

lemma generateDummyEmbeddings_props:
  "length (fst (generateDummyEmbeddings e c fx)) = nat (max 1 (min c 100))"
  "requests (snd (generateDummyEmbeddings e c fx)) = requests fx"
  "\<forall>v \<in> set (fst (generateDummyEmbeddings e c fx)). length v = 1536"
  using dummyLoop_dims [of "[]" e "nat (max 1 (min c 100))" fx]
  by (simp_all add: generateDummyEmbeddings_def dummyLoop_length dummyLoop_requests)

lemma embedItem_length: "length (fst (embedItem e t (acc, fx))) = length acc + 1"
  by (simp add: embedItem_def Let_def generateSingleDummyEmbedding_def split: fetchOutcome.splits)

lemma embedItems_length:
  "length (fst (foldl (\<lambda>s t. embedItem e t s) st ts)) = length (fst st) + length ts"
proof (induction ts arbitrary: st)
  case Nil
  then show ?case by simp
next
  case (Cons t ts)
  obtain acc fx where st: "st = (acc, fx)" by (cases st)
  show ?case using Cons [of "embedItem e t st"] embedItem_length [of e t acc fx] st by simp
qed

lemma slice_batch_length:
  assumes "i < length ts"
  shows "length (slice ts (int i) (int i + 3)) = min 3 (length ts - i)"
proof -
  have "nat (min (int i + 3) (int (length ts)) - int i) = min 3 (length ts - i)"
    using assms by arith
  then show ?thesis using assms by (simp add: slice_def Let_def)
qed

lemma embedBatches_length:
  "length (fst (embedBatches e ts i st)) = length (fst st) + (length ts - i)"
proof (induction e ts i st rule: embedBatches.induct)
  case (1 e ts i st)
  show ?case
  proof (cases "i < length ts")
    case True
    let ?st' = "foldl (\<lambda>s text. embedItem e text s) st (slice ts (int i) (int i + 3))"
    have "embedBatches e ts i st = embedBatches e ts (i + 3) ?st'"
      using True by (subst embedBatches.simps) (simp add: Let_def)
    moreover have "length (fst (embedBatches e ts (i + 3) ?st')) = length (fst ?st') + (length ts - (i + 3))"
      using 1 [OF True refl] .
    moreover have "length (fst ?st') = length (fst st) + min 3 (length ts - i)"
      by (simp add: embedItems_length slice_batch_length [OF True])
    ultimately show ?thesis using True by (simp add: min_def)
  next
    case False
    then show ?thesis by (subst embedBatches.simps) simp
  qed
qed

lemma slice_take: "0 \<le> k \<Longrightarrow> slice xs 0 k = take (nat k) xs"
  by (simp add: slice_def Let_def min_def)

lemma generateEmbeddings_count:
  "length (fst (generateEmbeddings e texts fx)) =
     (if validateAndCleanChunks texts = [] then 1 else min 50 (length (validateAndCleanChunks texts)))"
proof -
  let ?v = "validateAndCleanChunks texts"
  show ?thesis
  proof (cases "?v = []")
    case True
    then show ?thesis
      by (simp add: generateEmbeddings_def generateDummyEmbeddings_props(1))
  next
    case False
    then have pos: "0 < length (take 50 ?v)" by simp
    have le: "length (take 50 ?v) \<le> 50" by simp
    have d: "length (fst (generateDummyEmbeddings e (int (length (take 50 ?v))) fx)) = length (take 50 ?v)"
    proof -
      have "nat (max 1 (min (int (length (take 50 ?v))) 100)) = length (take 50 ?v)"
        using pos le by linarith
      then show ?thesis by (simp only: generateDummyEmbeddings_props(1))
    qed
    have b: "length (fst (embedBatches e (take 50 ?v) 0 ([], fx))) = length (take 50 ?v)"
      by (simp add: embedBatches_length)
    show ?thesis using False d b
      by (simp add: generateEmbeddings_def Let_def slice_take min.commute)
  qed
qed

lemma generateEmbeddings_offline:
  assumes "\<not> truthy (GRAVIXLAYER_API_KEY e)"
  shows "requests (snd (generateEmbeddings e texts fx)) = requests fx"
    and "\<forall>v \<in> set (fst (generateEmbeddings e texts fx)). length v = 1536"
  using assms
  by (simp_all add: generateEmbeddings_def Let_def generateDummyEmbeddings_props)

text \<open>
  Claim C3, as amended. \<open>generateEmbeddings\<close> always returns a list of vectors (every
  failure of a request is turned into a dummy vector). It returns one vector when no
  text has 3 characters after trimming, and otherwise one vector per distinct trimmed
  text of at least 3 characters, at most 50. With no credential configured no request
  is sent and every vector has 1536 entries.
\<close>

theorem generateEmbeddings_length:
  "length (fst (generateEmbeddings e texts fx)) =
     (if validateAndCleanChunks texts = [] then 1 else min 50 (length (validateAndCleanChunks texts))) \<and>
   length (validateAndCleanChunks texts) = card (trim ` {c \<in> set texts. 3 \<le> length (trim c)}) \<and>
   (\<not> truthy (GRAVIXLAYER_API_KEY e) \<longrightarrow>
      requests (snd (generateEmbeddings e texts fx)) = requests fx \<and>
      (\<forall>v \<in> set (fst (generateEmbeddings e texts fx)). length v = 1536))"
  using generateEmbeddings_count [of e texts fx] generateEmbeddings_offline [of e texts fx]
    validateAndCleanChunks_card [of texts]
  by blast

lemma validate_example:
  "validateAndCleanChunks [''alpha'', '' alpha '', ''beta'', ''a''] = [''alpha'', ''beta'']"
  by code_simp

lemma validate_ab: "validateAndCleanChunks [''a'', ''b''] = []"
  by code_simp

theorem generateEmbeddings_length_witness:
  "\<not> truthy (GRAVIXLAYER_API_KEY offlineEnv) \<and>
   length (fst (generateEmbeddings offlineEnv [''alpha'', '' alpha '', ''beta'', ''a''] fx0)) = 2 \<and>
   requests (snd (generateEmbeddings offlineEnv [''alpha'', '' alpha '', ''beta'', ''a''] fx0)) = [] \<and>
   list_all (\<lambda>v. length v = 1536)
     (fst (generateEmbeddings offlineEnv [''alpha'', '' alpha '', ''beta'', ''a''] fx0))"
  using generateEmbeddings_length [of offlineEnv "[''alpha'', '' alpha '', ''beta'', ''a'']" fx0]
  by (simp add: validate_example offlineEnv_def truthy_def fx0_def list_all_iff)

text \<open>
  Claim C3 as stated fails on its own example: with no credential, the input
  \<open>["a", "b"]\<close> gives one vector, not two (both texts are shorter than 3 characters).
\<close>

theorem generateEmbeddings_same_length_counterexample:
  "\<not> truthy (GRAVIXLAYER_API_KEY offlineEnv) \<and>
   length (fst (generateEmbeddings offlineEnv [''a'', ''b''] fx0)) = 1"
  using generateEmbeddings_count [of offlineEnv "[''a'', ''b'']" fx0]
  by (simp add: validate_ab offlineEnv_def truthy_def)

section \<open>Ingestion followed by chat\<close>

lemma helloText_trim: "trim helloText = helloText"
  by (simp add: helloText_def trim_def isWhitespace_def)

lemma helloText_length: "length helloText = 57"
  by (simp add: helloText_def)

lemma helloText_chunks: "chunkTextDefault helloText = Some (replicate 50 helloText)"
proof -
  have ne: "helloText \<noteq> []" by (simp add: helloText_def)
  have lw: "\<not> isWhitespace (last helloText)" by (simp add: helloText_def isWhitespace_def)
  have st: "stallChunk helloText = helloText"
    by (simp add: stallChunk_def slice_def helloText_length helloText_trim)
  have "chunkLoop helloText 1000 200 50 0 [] = Some (helloText # replicate 49 (stallChunk helloText))"
    using ne lw by (intro chunkLoop_short) (simp_all add: helloText_trim helloText_length)
  then show ?thesis using ne
    by (simp add: chunkTextDefault_def chunkText_def helloText_trim helloText_length st flip: replicate_Suc)
qed

lemma helloText_valid: "validateAndCleanChunks (replicate 50 helloText) = [helloText]"
proof -
  let ?v = "validateAndCleanChunks (replicate 50 helloText)"
  have f: "map trim (filter (\<lambda>c. 3 \<le> length (trim c)) (replicate 50 helloText)) = replicate 50 helloText"
    by (simp add: helloText_trim helloText_length)
  have "set ?v = {helloText}" "distinct ?v"
    by (simp_all add: validateAndCleanChunks_first f firstOccurrences_set firstOccurrences_distinct)
  then obtain a rest where v: "?v = a # rest" by (cases ?v) auto
  have "a = helloText" "set rest \<subseteq> {helloText}" "a \<notin> set rest"
    using \<open>set ?v = {helloText}\<close> \<open>distinct ?v\<close> v by auto
  then have "rest = []" by (cases rest) auto
  then show ?thesis using v \<open>a = helloText\<close> by simp
qed

lemma hello_ingest:
  "\<exists>g' fx' doc.
     processDocumentPOST (e\<lparr>pdfToText := (\<lambda>path. Some helloText)\<rparr>) (Some helloBody)
       \<lparr>documentStore = None, sessionMetaStore = None\<rparr> fx
       = Some (ProcessOk ''f1'' ''hello.pdf'' 50, g', fx') \<and>
     documentStore g' = Some [(''f1'', Document doc)] \<and>
     length (chunks doc) = 50 \<and> length (embeddings doc) = 1"
proof -
  let ?e = "e\<lparr>pdfToText := (\<lambda>path. Some helloText)\<rparr>"
  have ex: "\<And>p. extractTextFromPDF ?e p = Inr helloText"
    by (simp add: extractTextFromPDF_def helloText_trim helloText_length) (simp add: helloText_def)
  have n: "length (fst (generateEmbeddings ?e (replicate 50 helloText) fx)) = 1"
    by (simp add: generateEmbeddings_count helloText_valid)
  obtain es fx' where g: "generateEmbeddings ?e (replicate 50 helloText) fx = (es, fx')"
    by (cases "generateEmbeddings ?e (replicate 50 helloText) fx")
  have ne: "helloText \<noteq> []" by (simp add: helloText_def)
  show ?thesis using n g ne
    by (simp add: processDocumentPOST_def ex helloText_chunks helloText_trim helloText_length
        getDocumentStore_def helloBody_def)
qed

lemma ragMessages_single_document:
  "documentStore g = Some [(k, Document doc)] \<Longrightarrow> fst (ragMessages e c msgs g fx) = msgs"
  by (simp add: ragMessages_def getDocumentStore_def split: option.splits)

lemma message_copy: "map (\<lambda>msg. \<lparr>role = role msg, content = content msg\<rparr>) msgs = msgs"
  by (induction msgs) simp_all

lemma chatPOST_single_document:
  "documentStore g = Some [(k, Document doc)] \<Longrightarrow>
   fst (chatPOST e c \<lparr>messages = Some msgs, useRAG = True\<rparr> g fx) =
     (if truthy (GRAVIXLAYER_API_KEY e) then Forwarded msgs else ChatError 500 ''API key not configured'')"
  using ragMessages_single_document [of g k doc e c msgs fx]
  by (auto simp add: chatPOST_def message_copy split: prod.splits)

text \<open>
  Claim C2 fails on the code. The processing endpoint stores the chunker's output as it
  is, next to the vectors \<open>generateEmbeddings\<close> made for the cleaned list. For the
  57-character text of \<open>helloText\<close> the stored document has 50 chunks and 1 vector,
  with or without a credential.
\<close>

theorem stored_chunks_without_vectors:
  "\<exists>g' fx' doc.
     processDocumentPOST (e\<lparr>pdfToText := (\<lambda>path. Some helloText)\<rparr>) (Some helloBody)
       \<lparr>documentStore = None, sessionMetaStore = None\<rparr> fx
       = Some (ProcessOk ''f1'' ''hello.pdf'' 50, g', fx') \<and>
     documentStore g' = Some [(''f1'', Document doc)] \<and>
     length (chunks doc) = 50 \<and> length (embeddings doc) = 1"
  by (rule hello_ingest)

text \<open>
  Claim C1 fails on the code. The processing endpoint stores the document under its
  file id, as a document; the chat handler looks for a map of documents under the
  session id. After the ingestion of \<open>helloText\<close> the chat handler forwards the
  messages as they came, for every cookie and every message list.
\<close>

theorem chat_after_ingestion_adds_no_context:
  "\<exists>g' fx'.
     processDocumentPOST (e\<lparr>pdfToText := (\<lambda>path. Some helloText)\<rparr>) (Some helloBody)
       \<lparr>documentStore = None, sessionMetaStore = None\<rparr> fx
       = Some (ProcessOk ''f1'' ''hello.pdf'' 50, g', fx') \<and>
     (\<forall>e2 cookie msgs fx2.
        fst (chatPOST e2 cookie \<lparr>messages = Some msgs, useRAG = True\<rparr> g' fx2) =
          (if truthy (GRAVIXLAYER_API_KEY e2) then Forwarded msgs
           else ChatError 500 ''API key not configured''))"
proof -
  obtain g' fx' doc where
    "processDocumentPOST (e\<lparr>pdfToText := (\<lambda>path. Some helloText)\<rparr>) (Some helloBody)
       \<lparr>documentStore = None, sessionMetaStore = None\<rparr> fx
       = Some (ProcessOk ''f1'' ''hello.pdf'' 50, g', fx')"
    "documentStore g' = Some [(''f1'', Document doc)]"
    using hello_ingest [of e fx] by blast
  then show ?thesis using chatPOST_single_document by blast
qed

section \<open>Properties of double arithmetic\<close>

text \<open>
  Rounding to an integer: an integer is its own rounding, and a number less than half
  a unit away from an integer rounds to it.
\<close>

lemma rne_of_int [simp]: "rne (of_int k) = k"
  by (simp add: rne_def)

lemma rne_near:
  assumes "of_int n - 1 / 2 < q" "q < of_int n + 1 / 2"
  shows "rne q = n"
proof (cases "of_int n \<le> q")
  case True
  then have "\<lfloor>q\<rfloor> = n" using assms by (simp add: floor_eq_iff)
  then show ?thesis using assms by (simp add: rne_def Let_def)
next
  case False
  then have f: "\<lfloor>q\<rfloor> = n - 1" using assms by (simp add: floor_eq_iff)
  show ?thesis using assms False by (simp add: rne_def Let_def f)
qed

lemma rne_mono_floor: "\<lfloor>q\<rfloor> \<le> rne q"
  by (simp add: rne_def Let_def)

lemma rne_le_ceil: "rne q \<le> \<lfloor>q\<rfloor> + 1"
  by (simp add: rne_def Let_def)

text \<open>The binade of a positive number: \<open>\<lfloor>log 2 x\<rfloor> = e\<close> means \<open>2 powi e \<le> x < 2 powi (e + 1)\<close>.\<close>

lemma powr_powi: "(2::real) powr real_of_int k = 2 powi k"
  by (simp add: powr_real_of_int')

lemma powr_powi_Suc: "(2::real) powr (real_of_int k + 1) = 2 powi (k + 1)"
  using powr_powi [of "k + 1"] by simp

lemma pow2_floor_log:
  assumes "0 < x"
  shows "2 powi \<lfloor>log 2 x\<rfloor> \<le> x" "x < 2 powi (\<lfloor>log 2 x\<rfloor> + 1)"
  using floor_log_eq_powr_iff [of x 2 "\<lfloor>log 2 x\<rfloor>"] assms
  by (simp_all add: powr_powi powr_powi_Suc)

lemma floor_log_pow2:
  assumes "0 < x" "2 powi e \<le> x" "x < 2 powi (e + 1)"
  shows "\<lfloor>log 2 x\<rfloor> = e"
  using floor_log_eq_powr_iff [of x 2 e] assms
  by (simp add: powr_powi powr_powi_Suc)

text \<open>
  How \<open>float64\<close> is evaluated: for \<open>x\<close> in the binade of \<open>ex\<close> the result is
  \<open>n * 2 powi (e - 52)\<close>, where \<open>e\<close> is \<open>ex\<close> or \<open>- 1022\<close> and \<open>n\<close> is the integer less than
  half a unit away from \<open>x / 2 powi (e - 52)\<close>.
\<close>

lemma float64_near:
  assumes x: "x \<noteq> 0"
    and ex: "2 powi ex \<le> \<bar>x\<bar>" "\<bar>x\<bar> < 2 powi (ex + 1)"
    and e: "e = max ex (- 1022)"
    and n: "of_int n - 1 / 2 < x / 2 powi (e - 52)" "x / 2 powi (e - 52) < of_int n + 1 / 2"
    and r: "r = of_int n * 2 powi (e - 52)"
    and fin: "\<bar>r\<bar> < 2 ^ 1024"
  shows "float64 x = Fin r"
proof -
  have "\<lfloor>log 2 \<bar>x\<bar>\<rfloor> = ex" using floor_log_pow2 [of "\<bar>x\<bar>" ex] x ex by simp
  moreover have "rne (x / 2 powi (e - 52)) = n" using n by (rule rne_near)
  ultimately show ?thesis using x e r fin by (simp add: float64_def Let_def)
qed


text \<open>
  A number \<open>m * 2 powi k\<close> with \<open>\<bar>m\<bar> < 2 ^ 53\<close>, \<open>- 1074 \<le> k\<close> and a magnitude below
  \<open>2 ^ 1024\<close> is a double: \<open>float64\<close> returns it unchanged. So the integers below
  \<open>2 ^ 53\<close> are computed with exactly.
\<close>

lemma float64_exact:
  assumes xm: "x = of_int m * 2 powi k" and m: "\<bar>m\<bar> < 2 ^ 53" and k: "- 1074 \<le> k"
    and fin: "\<bar>x\<bar> < 2 ^ 1024"
  shows "float64 x = Fin x"
proof (cases "x = 0")
  case True
  then show ?thesis by (simp add: float64_def)
next
  case False
  define e0 where "e0 = \<lfloor>log 2 \<bar>x\<bar>\<rfloor>"
  define e where "e = max e0 (- 1022)"
  have pos: "0 < \<bar>x\<bar>" using False by simp
  have lo: "2 powi e0 \<le> \<bar>x\<bar>" unfolding e0_def using pow2_floor_log(1) [OF pos] .
  have "\<bar>x\<bar> = of_int \<bar>m\<bar> * 2 powi k" by (simp add: xm abs_mult)
  also have "\<dots> < 2 ^ 53 * 2 powi k"
  proof -
    have "real_of_int \<bar>m\<bar> < 2 ^ 53" using m by (metis of_int_less_numeral_power_cancel_iff)
    then show ?thesis by (simp add: mult_strict_right_mono)
  qed
  also have "\<dots> = 2 powi (53 + k)" by (simp add: power_int_add)
  finally have hi: "\<bar>x\<bar> < 2 powi (53 + k)" .
  have "e0 < 53 + k"
  proof (rule ccontr)
    assume "\<not> e0 < 53 + k"
    then have "(2::real) powi (53 + k) \<le> 2 powi e0" by (intro power_int_increasing) simp_all
    then show False using lo hi by simp
  qed
  then have ek: "e - 52 \<le> k" using k by (simp add: e_def)
  define j where "j = nat (k - (e - 52))"
  have kj: "k = (e - 52) + int j" using ek by (simp add: j_def)
  have q: "x / 2 powi (e - 52) = of_int (m * 2 ^ j)"
    by (simp add: xm kj power_int_add)
  have "of_int (rne (x / 2 powi (e - 52))) * 2 powi (e - 52) = x"
    unfolding q rne_of_int by (simp add: xm kj power_int_add)
  then show ?thesis
    using False fin by (simp add: float64_def Let_def e_def [symmetric] e0_def [symmetric])
qed

lemma float64_numeral [simp]:
  assumes "numeral w < (2::int) ^ 53"
  shows "float64 (numeral w) = Fin (numeral w)" "float64 (- numeral w) = Fin (- numeral w)"
proof -
  have "real_of_int (numeral w) < real_of_int (2 ^ 53)" using assms by (simp only: of_int_less_iff)
  then have h: "(numeral w :: real) < 2 ^ 53" by (simp only: of_int_numeral of_int_power)
  have "(2::real) ^ 53 \<le> 2 ^ 1024" by (rule power_increasing) simp_all
  then have r: "\<bar>numeral w :: real\<bar> < 2 ^ 1024" using h by (simp only: abs_numeral)
  have m: "\<bar>numeral w :: int\<bar> < 2 ^ 53" using assms by (simp only: abs_numeral)
  have x: "(numeral w :: real) = real_of_int (numeral w) * 2 powi 0" by simp
  show "float64 (numeral w) = Fin (numeral w)"
    by (rule float64_exact [OF x m _ r]) simp
  have m': "\<bar>- numeral w :: int\<bar> < 2 ^ 53" using m by (simp only: abs_minus_cancel)
  have r': "\<bar>- numeral w :: real\<bar> < 2 ^ 1024" using r by (simp only: abs_minus_cancel)
  have x': "(- numeral w :: real) = real_of_int (- numeral w) * 2 powi 0" by simp
  show "float64 (- numeral w) = Fin (- numeral w)"
    by (rule float64_exact [OF x' m' _ r']) simp
qed

lemma float64_0 [simp]: "float64 0 = Fin 0"
  by (simp add: float64_def)

lemma float64_1 [simp]: "float64 1 = Fin 1"
  using float64_exact [of 1 1 0] by simp

text \<open>
  Signs. The rounding of a number that is at least the smallest positive double is
  greater than 0, and the rounding of a number that is not positive is not. Every
  finite result of \<open>float64\<close> is a multiple of \<open>2 powi (- 1074)\<close>, so the difference of
  two distinct doubles does not round to 0: the comparator \<open>b - a\<close> is positive exactly
  when \<open>a < b\<close>.
\<close>

lemma float64_cases:
  assumes "x \<noteq> 0"
  shows "float64 x = Fin (of_int (rne (x / 2 powi (max \<lfloor>log 2 \<bar>x\<bar>\<rfloor> (- 1022) - 52))) *
                          2 powi (max \<lfloor>log 2 \<bar>x\<bar>\<rfloor> (- 1022) - 52)) \<or>
         float64 x = (if 0 < x then PInf else NInf)"
  using assms by (simp add: float64_def Let_def)

lemma float64_positive:
  assumes "2 powi (- 1074) \<le> x"
  shows "positive (float64 x)"
proof -
  have x: "0 < x" using assms by (smt (verit) zero_less_power_int)
  define e0 where "e0 = \<lfloor>log 2 \<bar>x\<bar>\<rfloor>"
  define e where "e = max e0 (- 1022)"
  have lo: "2 powi e0 \<le> x" unfolding e0_def using pow2_floor_log(1) [of "\<bar>x\<bar>"] x by simp
  have "2 powi (e - 52) \<le> x"
  proof (cases "e0 \<le> - 1022")
    case True
    then show ?thesis using assms by (simp add: e_def max_def)
  next
    case False
    then have "e = e0" by (simp add: e_def)
    moreover have "(2::real) powi (e0 - 52) \<le> 2 powi e0" by (intro power_int_increasing) simp_all
    ultimately show ?thesis using lo by simp
  qed
  then have "1 \<le> x / 2 powi (e - 52)" by (simp add: field_simps)
  then have "1 \<le> \<lfloor>x / 2 powi (e - 52)\<rfloor>" by (simp add: le_floor_iff)
  then have "1 \<le> rne (x / 2 powi (e - 52))" using rne_mono_floor [of "x / 2 powi (e - 52)"] by linarith
  then have "0 < real_of_int (rne (x / 2 powi (e - 52))) * 2 powi (e - 52)" by simp
  moreover have "x \<noteq> 0" using x by simp
  ultimately show ?thesis
    using float64_cases [of x] x unfolding e_def e0_def by (auto simp: positive_def)
qed

lemma float64_not_positive:
  assumes "x \<le> 0"
  shows "\<not> positive (float64 x)"
proof (cases "x = 0")
  case True
  then show ?thesis by (simp add: positive_def)
next
  case False
  then have x: "x < 0" using assms by simp
  define e where "e = max \<lfloor>log 2 \<bar>x\<bar>\<rfloor> (- 1022)"
  have "x / 2 powi (e - 52) < 0" using x by (simp add: field_simps)
  then have "\<lfloor>x / 2 powi (e - 52)\<rfloor> < 0" by (simp add: floor_less_iff)
  then have "rne (x / 2 powi (e - 52)) \<le> 0" using rne_le_ceil [of "x / 2 powi (e - 52)"] by linarith
  then have "real_of_int (rne (x / 2 powi (e - 52))) * 2 powi (e - 52) \<le> 0"
    by (simp add: mult_le_0_iff)
  then show ?thesis
    using float64_cases [OF False] x unfolding e_def by (auto simp: positive_def)
qed

lemma float64_isDouble:
  assumes "float64 x = Fin r"
  shows "isDouble r"
proof (cases "x = 0")
  case True
  then show ?thesis using assms by (auto simp: isDouble_def)
next
  case False
  define e where "e = max \<lfloor>log 2 \<bar>x\<bar>\<rfloor> (- 1022)"
  define n where "n = rne (x / 2 powi (e - 52))"
  have r: "r = of_int n * 2 powi (e - 52)" and fin: "\<bar>r\<bar> < 2 ^ 1024"
    using assms False unfolding e_def n_def by (auto simp: float64_def Let_def split: if_splits)
  define j where "j = nat (e + 1022)"
  have "- 1022 \<le> e" unfolding e_def by (rule max.cobounded2)
  then have e: "e - 52 = int j - 1074" by (simp add: j_def)
  have "(2::real) powi (e - 52) * 2 ^ 1074 = 2 ^ j"
    unfolding e by (simp add: power_int_diff)
  then have "r * 2 ^ 1074 = of_int (n * 2 ^ j)" by (simp add: r)
  then have "r * 2 ^ 1074 \<in> \<int>" by (metis Ints_of_int)
  then show ?thesis using fin by (simp add: isDouble_def)
qed

lemma float64_difference:
  assumes "isDouble x" "isDouble y"
  shows "positive (float64 (y - x)) \<longleftrightarrow> x < y"
proof (cases "x < y")
  case False
  then show ?thesis using float64_not_positive [of "y - x"] by simp
next
  case True
  obtain a :: int where a: "x * 2 ^ 1074 = of_int a" using assms(1) by (auto simp: isDouble_def elim: Ints_cases)
  obtain b :: int where b: "y * 2 ^ 1074 = of_int b" using assms(2) by (auto simp: isDouble_def elim: Ints_cases)
  have "x * 2 ^ 1074 < y * 2 ^ 1074" using True by simp
  then have "a < b" unfolding a b by simp
  then have "of_int a + 1 \<le> (of_int b :: real)" by linarith
  then have "1 \<le> (y - x) * 2 ^ 1074" using a b by (simp add: algebra_simps)
  then have "2 powi (- 1074) \<le> y - x" by (simp add: power_int_minus field_simps)
  then show ?thesis using float64_positive True by simp
qed

lemma isDouble_bound: "isDouble x \<Longrightarrow> - (2 ^ 1024) < x \<and> x < 2 ^ 1024"
  unfolding isDouble_def by linarith

lemma numSub_positive:
  assumes "sortable a" "sortable b"
  shows "positive (numSub b a) \<longleftrightarrow> valueOf a < valueOf b"
proof (cases a)
  case (Fin x)
  then have x: "isDouble x" using assms(1) by (simp add: sortable_def)
  show ?thesis
  proof (cases b)
    case (Fin y)
    then have y: "isDouble y" using assms(2) by (simp add: sortable_def)
    show ?thesis
      using float64_difference [OF x y] \<open>a = Fin x\<close> \<open>b = Fin y\<close>
      by (simp add: numSub_def numAdd_def numNeg_def valueOf_def)
  next
    case PInf
    then show ?thesis using \<open>a = Fin x\<close> isDouble_bound [OF x]
      by (simp add: numSub_def numAdd_def numNeg_def valueOf_def positive_def)
  next
    case NInf
    then show ?thesis using \<open>a = Fin x\<close> isDouble_bound [OF x]
      by (simp add: numSub_def numAdd_def numNeg_def valueOf_def positive_def)
  next
    case NaN
    then show ?thesis using assms(2) by (simp add: sortable_def)
  qed
next
  case PInf
  then show ?thesis using assms(2)
    by (cases b) (auto simp add: numSub_def numAdd_def numNeg_def valueOf_def positive_def
        sortable_def dest: isDouble_bound)
next
  case NInf
  then show ?thesis using assms(2)
    by (cases b) (auto simp add: numSub_def numAdd_def numNeg_def valueOf_def positive_def
        sortable_def dest: isDouble_bound)
next
  case NaN
  then show ?thesis using assms(1) by (simp add: sortable_def)
qed

lemma numDiv_isDouble: "numDiv a b = Fin r \<Longrightarrow> isDouble r"
  by (cases a; cases b) (auto simp: numDiv_def isDouble_def dest: float64_isDouble split: if_splits)

lemma cosineSimilarity_isDouble: "cosineSimilarity a b = Fin r \<Longrightarrow> isDouble r"
  by (auto simp: cosineSimilarity_def Let_def isDouble_def dest: numDiv_isDouble split: if_splits)

lemma cosineSimilarity_sortable: "positive (cosineSimilarity a b) \<Longrightarrow> sortable (cosineSimilarity a b)"
  by (cases "cosineSimilarity a b") (auto simp: sortable_def positive_def dest: cosineSimilarity_isDouble)

text \<open>
  The roundings of the examples: \<open>Math.sqrt(2)\<close> is \<open>1.4142135623730951\<close>, its square
  \<open>2.0000000000000004\<close>, and \<open>2 / 2.0000000000000004\<close> is \<open>0.9999999999999998\<close>;
  \<open>Math.sqrt(18)\<close> is \<open>4.242640687119285\<close> and its product with \<open>Math.sqrt(2)\<close> rounds
  to 6.
\<close>

lemma float64_sqrt_near:
  assumes s: "0 < s"
    and ex: "(2 powi ex)\<^sup>2 \<le> s" "s < (2 powi (ex + 1))\<^sup>2"
    and e: "e = max ex (- 1022)"
    and lo: "((of_int n - 1 / 2) * 2 powi (e - 52))\<^sup>2 < s" "1 \<le> n"
    and hi: "s < ((of_int n + 1 / 2) * 2 powi (e - 52))\<^sup>2"
    and r: "r = of_int n * 2 powi (e - 52)"
    and fin: "\<bar>r\<bar> < 2 ^ 1024"
  shows "float64 (sqrt s) = Fin r"
proof (rule float64_near [where ex = ex and e = e and n = n])
  show "sqrt s \<noteq> 0" using s by simp
  show "2 powi ex \<le> \<bar>sqrt s\<bar>" using ex(1) s by (simp add: real_le_rsqrt)
  have "sqrt s < 2 powi (ex + 1)" using ex(2) by (intro real_less_lsqrt) simp_all
  then show "\<bar>sqrt s\<bar> < 2 powi (ex + 1)" using s by simp
  show "e = max ex (- 1022)" by (rule e)
  have "(of_int n - 1 / 2) * 2 powi (e - 52) < sqrt s" using lo(1) by (rule real_less_rsqrt)
  then show "of_int n - 1 / 2 < sqrt s / 2 powi (e - 52)" by (simp add: field_simps)
  have "0 \<le> (real_of_int n + 1 / 2) * 2 powi (e - 52)" using lo(2) by simp
  then have "sqrt s < (of_int n + 1 / 2) * 2 powi (e - 52)" using hi by (intro real_less_lsqrt)
  then show "sqrt s / 2 powi (e - 52) < of_int n + 1 / 2" by (simp add: field_simps)
  show "r = of_int n * 2 powi (e - 52)" by (rule r)
  show "\<bar>r\<bar> < 2 ^ 1024" by (rule fin)
qed

lemma sqrt_2_double: "float64 (sqrt 2) = Fin (6369051672525773 / 4503599627370496)"
  by (rule float64_sqrt_near [where ex = 0 and e = 0 and n = 6369051672525773])
     (simp_all add: power2_eq_square)

lemma square_sqrt_2_double:
  "float64 (40564819207303346393761349247529 / 20282409603651670423947251286016) =
   Fin (4503599627370497 / 2251799813685248)"
  by (rule float64_near [where ex = 1 and e = 1 and n = 4503599627370497]) simp_all

lemma quotient_double:
  "float64 (4503599627370496 / 4503599627370497) = Fin (4503599627370495 / 4503599627370496)"
  by (rule float64_near [where ex = "- 1" and e = "- 1" and n = 9007199254740990]) simp_all

lemma nine_tenths_double: "float64 (9 / 10) = Fin (8106479329266893 / 9007199254740992)"
  by (rule float64_near [where ex = "- 1" and e = "- 1" and n = 8106479329266893]) simp_all


lemma float64_m1 [simp]: "float64 (- 1) = Fin (- 1)"
  using float64_exact [of "- 1" "- 1" 0] by simp

lemma float64_half: "float64 (1 / 2) = Fin (1 / 2)"
  using float64_exact [of "1 / 2" 1 "- 1"] by simp

lemma one_tenth_double: "float64 (1 / 10) = Fin (3602879701896397 / 36028797018963968)"
  by (rule float64_near [where ex = "- 4" and e = "- 4" and n = 7205759403792794]) simp_all

lemma sqrt_18_double: "float64 (sqrt 18) = Fin (4776788754394329 / 1125899906842624)"
  by (rule float64_sqrt_near [where ex = 2 and e = 2 and n = 4776788754394329])
     (simp_all add: power2_eq_square)

lemma product_sqrt_2_18_double:
  "float64 (30423614405477505018532257541317 / 5070602400912917605986812821504) = Fin 6"
  by (rule float64_near [where ex = 2 and e = 2 and n = 6755399441055744]) simp_all

lemma sqrt_100: "sqrt 100 = 10"
  by (rule real_sqrt_unique) simp_all

lemma sqrt_25: "sqrt 25 = 5"
  by (rule real_sqrt_unique) simp_all

lemmas double_arith =
  numMul_def numAdd_def orZero_def numSqrt_def numDiv_def sqrt_2_double square_sqrt_2_double
  quotient_double nine_tenths_double one_tenth_double float64_half sqrt_18_double
  product_sqrt_2_18_double sqrt_100 sqrt_25

section \<open>Properties of the retriever\<close>

lemma foldl_cond_append:
  "foldl (\<lambda>acc i. if P i then acc @ [f i] else acc) a xs = a @ map f (filter P xs)"
  by (induction xs arbitrary: a) simp_all

lemma zip_by_index:
  "zip xs ys = map (\<lambda>i. (xs ! i, ys ! i)) [0..<min (length xs) (length ys)]"
  by (rule nth_equalityI) simp_all

lemma scoreDocument_zip:
  "scoreDocument q doc acc =
     acc @ map (\<lambda>(c, v). (trim c, cosineSimilarity q v))
             (filter (\<lambda>(c, v). trim c \<noteq> [] \<and> positive (cosineSimilarity q v))
                (zip (chunks doc) (embeddings doc)))"
proof -
  let ?n = "min (length (chunks doc)) (length (embeddings doc))"
  let ?P = "\<lambda>i. trim (chunks doc ! i) \<noteq> [] \<and> positive (cosineSimilarity q (embeddings doc ! i))"
  let ?f = "\<lambda>i. (trim (chunks doc ! i), cosineSimilarity q (embeddings doc ! i))"
  have "scoreDocument q doc acc = foldl (\<lambda>acc i. if ?P i then acc @ [?f i] else acc) acc [0..<?n]"
    unfolding scoreDocument_def Let_def
    by (rule arg_cong [where f = "\<lambda>g. foldl g acc [0..<?n]"]) (auto simp: fun_eq_iff)
  also have "\<dots> = acc @ map ?f (filter ?P [0..<?n])" by (rule foldl_cond_append)
  also have "map ?f (filter ?P [0..<?n]) =
      map (\<lambda>(c, v). (trim c, cosineSimilarity q v))
        (filter (\<lambda>(c, v). trim c \<noteq> [] \<and> positive (cosineSimilarity q v)) (zip (chunks doc) (embeddings doc)))"
    unfolding zip_by_index by (simp add: filter_map comp_def)
  finally show ?thesis .
qed

lemma scoreDocument_sortable: "p \<in> set (scoreDocument q doc []) \<Longrightarrow> sortable (snd p)"
  by (auto simp: scoreDocument_zip intro: cosineSimilarity_sortable)

lemma scoreDocuments_concat:
  "foldl (\<lambda>acc doc. scoreDocument q doc acc) a docs =
     a @ concat (map (\<lambda>doc. scoreDocument q doc []) docs)"
proof (induction docs arbitrary: a)
  case Nil
  then show ?case by simp
next
  case (Cons d docs)
  have "scoreDocument q d a = a @ scoreDocument q d []" by (simp add: scoreDocument_zip)
  then show ?case using Cons by simp
qed

lemma scoreDocument_trimmed:
  assumes "\<forall>c \<in> set (chunks doc). c \<noteq> [] \<and> trim c = c"
  shows "scoreDocument q doc [] =
     filter (\<lambda>p. positive (snd p)) (zip (chunks doc) (map (cosineSimilarity q) (embeddings doc)))"
proof -
  let ?Z = "zip (chunks doc) (embeddings doc)"
  have in_z: "c \<noteq> [] \<and> trim c = c" if "(c, v) \<in> set ?Z" for c v
  proof -
    have "c \<in> set (chunks doc)" using that by (rule set_zip_leftD)
    then show ?thesis using assms by blast
  qed
  let ?F2 = "\<lambda>(c, v). positive (cosineSimilarity q v)"
  let ?U = "\<lambda>(c, v). (c, cosineSimilarity q v)"
  have "scoreDocument q doc [] =
        map (\<lambda>(c, v). (trim c, cosineSimilarity q v))
          (filter (\<lambda>(c, v). trim c \<noteq> [] \<and> positive (cosineSimilarity q v)) ?Z)"
    by (simp add: scoreDocument_zip)
  also have "filter (\<lambda>(c, v). trim c \<noteq> [] \<and> positive (cosineSimilarity q v)) ?Z = filter ?F2 ?Z"
    by (rule filter_cong) (auto dest: in_z)
  also have "map (\<lambda>(c, v). (trim c, cosineSimilarity q v)) (filter ?F2 ?Z) = map ?U (filter ?F2 ?Z)"
    by (rule map_cong) (auto dest: in_z)
  also have "?F2 = (\<lambda>p. positive (snd p)) \<circ> ?U" by (auto simp: fun_eq_iff)
  also have "map ?U (filter ((\<lambda>p. positive (snd p)) \<circ> ?U) ?Z) = filter (\<lambda>p. positive (snd p)) (map ?U ?Z)"
    by (simp only: filter_map)
  also have "map ?U ?Z = zip (chunks doc) (map (cosineSimilarity q) (embeddings doc))"
    by (simp add: zip_map2)
  finally show ?thesis .
qed

lemma insertSorted_insort:
  assumes "sortable (snd x)" "\<forall>y \<in> set ys. sortable (snd y)"
  shows "insertSorted (\<lambda>a b. numSub (snd b) (snd a)) x ys = insort_key (\<lambda>p. - valueOf (snd p)) x ys"
  using assms(2)
proof (induction ys)
  case Nil
  then show ?case by simp
next
  case (Cons y ys)
  have "positive (numSub (snd y) (snd x)) \<longleftrightarrow> valueOf (snd x) < valueOf (snd y)"
    using numSub_positive [of "snd x" "snd y"] assms(1) Cons.prems by simp
  then show ?case using Cons by auto
qed

lemma arraySort_descending:
  assumes "\<forall>p \<in> set xs. sortable (snd p)"
  shows "arraySort (\<lambda>a b. numSub (snd b) (snd a)) xs = sort_key (\<lambda>p. - valueOf (snd p)) xs"
  using assms
proof (induction xs)
  case Nil
  then show ?case by (simp add: arraySort_def)
next
  case (Cons x xs)
  have ih: "arraySort (\<lambda>a b. numSub (snd b) (snd a)) xs = sort_key (\<lambda>p. - valueOf (snd p)) xs"
    using Cons by simp
  have "arraySort (\<lambda>a b. numSub (snd b) (snd a)) (x # xs) =
        insertSorted (\<lambda>a b. numSub (snd b) (snd a)) x (sort_key (\<lambda>p. - valueOf (snd p)) xs)"
    using ih by (simp add: arraySort_def)
  also have "\<dots> = insort_key (\<lambda>p. - valueOf (snd p)) x (sort_key (\<lambda>p. - valueOf (snd p)) xs)"
    using Cons.prems by (intro insertSorted_insort) simp_all
  finally show ?case by (simp add: sort_key_def)
qed

lemma retrieve_general:
  "retrieveRelevantChunks q documents topK =
     map fst (take (nat (max 1 (min topK 10)))
       (sort_key (\<lambda>p. - valueOf (snd p))
          (concat (map (\<lambda>doc. scoreDocument q doc []) (map snd documents)))))"
proof (cases "documents = [] \<or> q = []")
  case True
  then show ?thesis
  proof
    assume "documents = []"
    then show ?thesis by (simp add: retrieveRelevantChunks_def)
  next
    assume q: "q = []"
    have "\<And>doc. scoreDocument q doc [] = []"
      by (simp add: scoreDocument_zip q cosineSimilarity_def filter_empty_conv positive_def)
    then have c: "concat (map (\<lambda>doc. scoreDocument q doc []) (map snd documents)) = []"
      by (induction documents) simp_all
    have r: "retrieveRelevantChunks q documents topK = []"
      by (simp add: retrieveRelevantChunks_def q)
    show ?thesis unfolding r c by simp
  qed
next
  case False
  define A where "A = concat (map (\<lambda>doc. scoreDocument q doc []) (map snd documents))"
  have "\<forall>p \<in> set A. sortable (snd p)"
    unfolding A_def by (auto dest: scoreDocument_sortable)
  then have srt: "arraySort (\<lambda>a b. numSub (snd b) (snd a)) A = sort_key (\<lambda>p. - valueOf (snd p)) A"
    by (rule arraySort_descending)
  have "foldl (\<lambda>acc doc. scoreDocument q doc acc) [] (map snd documents) = A"
    unfolding A_def by (simp only: scoreDocuments_concat append_Nil)
  then have r: "retrieveRelevantChunks q documents topK =
      (if A = [] then [] else map fst (take (nat (max 1 (min topK 10))) (sort_key (\<lambda>p. - valueOf (snd p)) A)))"
    using False
    by (simp add: retrieveRelevantChunks_def Let_def srt slice_take del: map_map)
  show ?thesis unfolding r A_def [symmetric] by (cases "A = []") simp_all
qed

lemma cosine_examples:
  "cosineSimilarity [Fin 1, Fin 0, Fin 0, Fin 0] [Fin 9, Fin 3, Fin 3, Fin 1] = Fin (8106479329266893 / 9007199254740992)"
  "cosineSimilarity [Fin 1, Fin 0, Fin 0, Fin 0] [Fin 1, Fin 9, Fin 3, Fin 3] = Fin (3602879701896397 / 36028797018963968)"
  "cosineSimilarity [Fin 1, Fin 0, Fin 0, Fin 0] [Fin 5, Fin 5, Fin 5, Fin 5] = Fin (1 / 2)"
  "cosineSimilarity [Fin 1, Fin 0, Fin 0, Fin 0] [Fin 0, Fin 1, Fin 0, Fin 0] = Fin 0"
  "cosineSimilarity [Fin 1, Fin 0, Fin 0, Fin 0] [Fin (- 1), Fin 0, Fin 0, Fin 0] = Fin (- 1)"
  "cosineSimilarity [Fin 1, Fin 1] [Fin 1, Fin 1] = Fin (4503599627370495 / 4503599627370496)"
  "cosineSimilarity [Fin 1, Fin 1] [Fin 3, Fin 3] = Fin 1"
  by (simp_all add: cosineSimilarity_def Let_def double_arith upt_rec [of 0] numeral_nat)

lemma retrieve_no_match:
  assumes "\<forall>d \<in> set (map snd documents). \<forall>v \<in> set (embeddings d). \<not> positive (cosineSimilarity q v)"
  shows "retrieveRelevantChunks q documents topK = []"
proof -
  have "scoreDocument q d [] = []" if "d \<in> set (map snd documents)" for d
  proof -
    have "\<And>c v. (c, v) \<in> set (zip (chunks d) (embeddings d)) \<Longrightarrow> \<not> positive (cosineSimilarity q v)"
      using assms that by (meson set_zip_rightD)
    then show ?thesis by (auto simp: scoreDocument_zip filter_empty_conv)
  qed
  then have "concat (map (\<lambda>doc. scoreDocument q doc []) (map snd documents)) = []"
    by (induction documents) simp_all
  then show ?thesis unfolding retrieve_general by (simp only:) simp
qed

text \<open>
  Claim C6. On documents whose chunks are trimmed and non-empty (as the chunker makes
  them), \<open>retrieveRelevantChunks\<close> pairs each document's chunks with its embeddings up to
  the shorter of the two arrays (\<open>zip\<close>), keeps the pairs whose similarity, computed in
  double arithmetic, is greater than 0 (a \<open>NaN\<close> is dropped), sorts them by descending
  similarity with a stable sort (\<open>sort_key\<close>: equal similarities stay in insertion
  order), and returns the texts of the first \<open>topK\<close>, clamped to 1..10. When no
  similarity is positive the result is empty.
\<close>

theorem retrieveRelevantChunks_ranking:
  assumes "\<forall>d \<in> set (map snd documents). \<forall>c \<in> set (chunks d). c \<noteq> [] \<and> trim c = c"
  shows "retrieveRelevantChunks q documents topK =
     map fst (take (nat (max 1 (min topK 10)))
       (sort_key (\<lambda>p. - valueOf (snd p))
          (filter (\<lambda>p. positive (snd p))
             (concat (map (\<lambda>d. zip (chunks d) (map (cosineSimilarity q) (embeddings d)))
                       (map snd documents)))))) \<and>
    ((\<forall>d \<in> set (map snd documents). \<forall>v \<in> set (embeddings d). \<not> positive (cosineSimilarity q v))
       \<longrightarrow> retrieveRelevantChunks q documents topK = [])"
proof -
  define ds where "ds = map snd documents"
  let ?Z = "\<lambda>d. zip (chunks d) (map (cosineSimilarity q) (embeddings d))"
  have "map (\<lambda>doc. scoreDocument q doc []) ds = map (\<lambda>d. filter (\<lambda>p. positive (snd p)) (?Z d)) ds"
    using assms unfolding ds_def by (intro map_cong refl scoreDocument_trimmed) blast
  moreover have "filter (\<lambda>p. positive (snd p)) (concat (map ?Z ds)) =
      concat (map (\<lambda>d. filter (\<lambda>p. positive (snd p)) (?Z d)) ds)"
    by (simp add: filter_concat comp_def)
  ultimately have "concat (map (\<lambda>doc. scoreDocument q doc []) ds) =
      filter (\<lambda>p. positive (snd p)) (concat (map ?Z ds))"
    by (simp only:)
  then have "retrieveRelevantChunks q documents topK =
     map fst (take (nat (max 1 (min topK 10)))
       (sort_key (\<lambda>p. - valueOf (snd p))
          (filter (\<lambda>p. positive (snd p))
             (concat (map (\<lambda>d. zip (chunks d) (map (cosineSimilarity q) (embeddings d)))
                       (map snd documents))))))"
    unfolding retrieve_general ds_def by (simp only:)
  then show ?thesis using retrieve_no_match [of documents q topK] by blast
qed

theorem retrieveRelevantChunks_ranking_witness:
  "retrieveRelevantChunks (map Fin [1, 0, 0, 0]) rankingDocs 2 = [''alpha'', ''gamma''] \<and>
   retrieveRelevantChunks (map Fin [1, 0, 0, 0]) rankingDocs 30 = [''alpha'', ''gamma'', ''beta''] \<and>
   retrieveRelevantChunks (map Fin [1, 0, 0, 0]) rankingDocs 0 = [''alpha''] \<and>
   retrieveRelevantChunks (map Fin [1, 0, 0, 0]) unrelatedDocs 2 = [] \<and>
   retrieveRelevantChunks (map Fin [1, 1]) tieDocs 2 = [''two'', ''one'']"
proof -
  have tr: "trim ''alpha'' = ''alpha''" "trim ''beta'' = ''beta''" "trim ''gamma'' = ''gamma''"
    "trim ''delta'' = ''delta''" "trim ''one'' = ''one''" "trim ''two'' = ''two''"
    by (simp_all add: trim_def isWhitespace_def)
  have h: "\<forall>d \<in> set (map snd rankingDocs). \<forall>c \<in> set (chunks d). c \<noteq> [] \<and> trim c = c"
    by (simp add: rankingDocs_def tr)
  have h2: "\<forall>d \<in> set (map snd unrelatedDocs). \<forall>c \<in> set (chunks d). c \<noteq> [] \<and> trim c = c"
    by (simp add: unrelatedDocs_def tr)
  have h3: "\<forall>d \<in> set (map snd tieDocs). \<forall>c \<in> set (chunks d). c \<noteq> [] \<and> trim c = c"
    by (simp add: tieDocs_def tr)
  show ?thesis
    using retrieveRelevantChunks_ranking [OF h, of "map Fin [1, 0, 0, 0]" 2]
      retrieveRelevantChunks_ranking [OF h, of "map Fin [1, 0, 0, 0]" 30]
      retrieveRelevantChunks_ranking [OF h, of "map Fin [1, 0, 0, 0]" 0]
      retrieveRelevantChunks_ranking [OF h2, of "map Fin [1, 0, 0, 0]" 2]
      retrieveRelevantChunks_ranking [OF h3, of "map Fin [1, 1]" 2]
    by (simp add: rankingDocs_def unrelatedDocs_def tieDocs_def cosine_examples valueOf_def positive_def)
qed

section \<open>Properties of the cleanup route\<close>

lemma unlinkLoop_unlocked:
  assumes "\<forall>f \<in> set listing. startsWith f pre \<longrightarrow> f \<notin> set lockedFiles"
  shows "fst (unlinkLoop pre lockedFiles listing (left, n)) =
           filter (\<lambda>f. \<not> (f \<in> set listing \<and> startsWith f pre)) left"
  using assms
proof (induction listing arbitrary: left n)
  case Nil
  then show ?case by simp
next
  case (Cons f0 listing)
  show ?case
  proof (cases "startsWith f0 pre")
    case True
    then have "f0 \<notin> set lockedFiles" using Cons.prems by simp
    moreover have "filter (\<lambda>f. \<not> (f \<in> set listing \<and> startsWith f pre)) (removeAll f0 left) =
        filter (\<lambda>f. \<not> (f \<in> set (f0 # listing) \<and> startsWith f pre)) left"
      using True by (induction left) auto
    ultimately show ?thesis using True Cons by simp
  next
    case False
    have "filter (\<lambda>f. \<not> (f \<in> set listing \<and> startsWith f pre)) left =
        filter (\<lambda>f. \<not> (f \<in> set (f0 # listing) \<and> startsWith f pre)) left"
      using False by (induction left) auto
    then show ?thesis using False Cons by simp
  qed
qed

lemma deleteSessionFiles_frame:
  "dirExists (deleteSessionFiles sid d) = dirExists d"
  "locked (deleteSessionFiles sid d) = locked d"
  by (simp_all add: deleteSessionFiles_def)

lemma delete_then_drop:
  "filter (\<lambda>p. fst p \<notin> set ids) (AList.delete sid al) = filter (\<lambda>p. fst p \<notin> set (sid # ids)) al"
  by (induction al) auto

lemma sweepLoop_globals:
  "fst (sweepLoop now idleMs entries (g, d, cleaned)) =
     g\<lparr>documentStore :=
          map_option (filter (\<lambda>p. fst p \<notin> set (idleIds now idleMs entries))) (documentStore g),
       sessionMetaStore :=
          map_option (filter (\<lambda>p. fst p \<notin> set (idleIds now idleMs entries))) (sessionMetaStore g)\<rparr>"
proof (induction entries arbitrary: g d cleaned)
  case Nil
  then show ?case by (simp add: idleIds_def option.map_ident)
next
  case (Cons e entries)
  obtain sid la where e: "e = (sid, la)" by (cases e)
  show ?case
  proof (cases "now - la > idleMs")
    case True
    then have ids: "idleIds now idleMs (e # entries) = sid # idleIds now idleMs entries"
      by (simp add: idleIds_def e)
    show ?thesis unfolding ids using True e Cons.IH
      by (simp add: option.map_comp comp_def delete_then_drop del: set_simps)
  next
    case False
    then have ids: "idleIds now idleMs (e # entries) = idleIds now idleMs entries"
      by (simp add: idleIds_def e)
    show ?thesis unfolding ids using False e Cons.IH by simp
  qed
qed

lemma sweepLoop_count:
  "snd (snd (sweepLoop now idleMs entries (g, d, cleaned))) =
     cleaned + length (idleIds now idleMs entries)"
proof (induction entries arbitrary: g d cleaned)
  case Nil
  then show ?case by (simp add: idleIds_def)
next
  case (Cons e entries)
  obtain sid la where e: "e = (sid, la)" by (cases e)
  show ?case using Cons.IH e by (simp add: idleIds_def)
qed

lemma map_of_filter_keys:
  "map_of (filter (\<lambda>p. fst p \<notin> S) al) k = (if k \<in> S then None else map_of al k)"
  by (induction al) auto

lemma startsWith_prefix: "startsWith s p \<longleftrightarrow> prefix p s"
  unfolding startsWith_def
  by (metis append_eq_conv_conj prefix_def take_is_prefix)

lemma idleIds_member:
  assumes "distinct (map fst sm)" "(sid, la) \<in> set sm"
  shows "sid \<in> set (idleIds now idleMs sm) \<longleftrightarrow> now - la > idleMs"
proof
  assume "sid \<in> set (idleIds now idleMs sm)"
  then obtain la' where "(sid, la') \<in> set sm" "now - la' > idleMs"
    by (auto simp: idleIds_def)
  then show "now - la > idleMs" using assms by (auto dest: eq_key_imp_eq_value)
next
  assume "now - la > idleMs"
  then show "sid \<in> set (idleIds now idleMs sm)" using assms(2) by (force simp: idleIds_def)
qed

lemma unlinkLoop_subset: "set (fst (unlinkLoop pre lockedFiles listing (left, n))) \<subseteq> set left"
proof (induction listing arbitrary: left n)
  case Nil
  then show ?case by simp
next
  case (Cons f0 listing)
  have "set (fst (unlinkLoop pre lockedFiles listing (removeAll f0 left, n + 1))) \<subseteq> set left"
    using Cons [of "removeAll f0 left" "n + 1"] by auto
  then show ?case using Cons [of left n] by simp
qed

lemma unlinkLoop_keeps:
  assumes "f \<in> set left" "\<not> startsWith f pre"
  shows "f \<in> set (fst (unlinkLoop pre lockedFiles listing (left, n)))"
  using assms(1)
proof (induction listing arbitrary: left n)
  case Nil
  then show ?case by simp
next
  case (Cons f0 listing)
  show ?case
  proof (cases "startsWith f0 pre")
    case True
    then have "f \<noteq> f0" using assms(2) by auto
    then have "f \<in> set (removeAll f0 left)" using Cons.prems by simp
    then have "f \<in> set (fst (unlinkLoop pre lockedFiles listing (removeAll f0 left, n + 1)))"
      by (rule Cons.IH)
    then show ?thesis using True Cons.prems by simp
  next
    case False
    then show ?thesis using Cons by simp
  qed
qed

lemma deleteSessionFiles_subset: "set (files (deleteSessionFiles sid d)) \<subseteq> set (files d)"
  using unlinkLoop_subset [of "sid @ ''__''" "locked d" "files d" "files d" 0]
  by (simp add: deleteSessionFiles_def)

lemma deleteSessionFiles_keeps:
  "f \<in> set (files d) \<Longrightarrow> \<not> startsWith f (sid @ ''__'') \<Longrightarrow> f \<in> set (files (deleteSessionFiles sid d))"
  using unlinkLoop_keeps [of f "files d" "sid @ ''__''" "locked d" "files d" 0]
  by (simp add: deleteSessionFiles_def)

lemma deleteSessionFiles_files_unlocked:
  assumes "dirExists d" "\<forall>f \<in> set (files d). startsWith f (sid @ ''__'') \<longrightarrow> f \<notin> set (locked d)"
  shows "files (deleteSessionFiles sid d) = filter (\<lambda>f. \<not> startsWith f (sid @ ''__'')) (files d)"
proof -
  have "fst (unlinkLoop (sid @ ''__'') (locked d) (files d) (files d, 0)) =
        filter (\<lambda>f. \<not> (f \<in> set (files d) \<and> startsWith f (sid @ ''__''))) (files d)"
    by (rule unlinkLoop_unlocked) (use assms(2) in blast)
  also have "\<dots> = filter (\<lambda>f. \<not> startsWith f (sid @ ''__'')) (files d)"
    by (rule filter_cong) auto
  finally show ?thesis using assms(1) by (simp add: deleteSessionFiles_def)
qed

lemma sweepLoop_files_subset:
  "set (files (fst (snd (sweepLoop now idleMs entries (g, d, cleaned))))) \<subseteq> set (files d)"
proof (induction entries arbitrary: g d cleaned)
  case Nil
  then show ?case by simp
next
  case (Cons e entries)
  obtain sid la where e: "e = (sid, la)" by (cases e)
  show ?case
  proof (cases "now - la > idleMs")
    case True
    show ?thesis
      using True e Cons.IH [of _ "deleteSessionFiles sid d"] deleteSessionFiles_subset [of sid d]
      by (simp del: set_simps) blast
  next
    case False
    then show ?thesis using e Cons.IH by simp
  qed
qed

lemma sweepLoop_files_keeps:
  assumes "f \<in> set (files d)" "\<forall>sid \<in> set (idleIds now idleMs entries). \<not> startsWith f (sid @ ''__'')"
  shows "f \<in> set (files (fst (snd (sweepLoop now idleMs entries (g, d, cleaned)))))"
  using assms
proof (induction entries arbitrary: g d cleaned)
  case Nil
  then show ?case by simp
next
  case (Cons e entries)
  obtain sid la where e: "e = (sid, la)" by (cases e)
  show ?case
  proof (cases "now - la > idleMs")
    case True
    then have ids: "idleIds now idleMs (e # entries) = sid # idleIds now idleMs entries"
      by (simp add: idleIds_def e)
    have "f \<in> set (files (deleteSessionFiles sid d))"
      using Cons.prems unfolding ids by (intro deleteSessionFiles_keeps) simp_all
    moreover have "\<forall>s \<in> set (idleIds now idleMs entries). \<not> startsWith f (s @ ''__'')"
      using Cons.prems(2) unfolding ids by simp
    ultimately show ?thesis using True e Cons.IH by simp
  next
    case False
    then have ids: "idleIds now idleMs (e # entries) = idleIds now idleMs entries"
      by (simp add: idleIds_def e)
    show ?thesis using False e Cons.IH Cons.prems unfolding ids by simp
  qed
qed

lemma sweepLoop_files_unlocked:
  assumes "dirExists d"
    "\<forall>sid \<in> set (idleIds now idleMs entries). \<forall>f \<in> set (files d).
        startsWith f (sid @ ''__'') \<longrightarrow> f \<notin> set (locked d)"
  shows "files (fst (snd (sweepLoop now idleMs entries (g, d, cleaned)))) =
     filter (\<lambda>f. \<forall>sid \<in> set (idleIds now idleMs entries). \<not> startsWith f (sid @ ''__'')) (files d)"
  using assms
proof (induction entries arbitrary: g d cleaned)
  case Nil
  then show ?case by (simp add: idleIds_def)
next
  case (Cons e entries)
  obtain sid la where e: "e = (sid, la)" by (cases e)
  show ?case
  proof (cases "now - la > idleMs")
    case True
    then have ids: "idleIds now idleMs (e # entries) = sid # idleIds now idleMs entries"
      by (simp add: idleIds_def e)
    let ?d = "deleteSessionFiles sid d"
    have u: "\<forall>f \<in> set (files d). startsWith f (sid @ ''__'') \<longrightarrow> f \<notin> set (locked d)"
      using Cons.prems(2) unfolding ids by simp
    have fd: "files ?d = filter (\<lambda>f. \<not> startsWith f (sid @ ''__'')) (files d)"
      by (rule deleteSessionFiles_files_unlocked [OF Cons.prems(1) u])
    have d: "dirExists ?d" using Cons.prems(1) by (simp add: deleteSessionFiles_frame)
    have l: "\<forall>s \<in> set (idleIds now idleMs entries). \<forall>f \<in> set (files ?d).
        startsWith f (s @ ''__'') \<longrightarrow> f \<notin> set (locked ?d)"
      using Cons.prems(2) unfolding ids fd by (simp add: deleteSessionFiles_frame)
    have "files (fst (snd (sweepLoop now idleMs (e # entries) (g, d, cleaned)))) =
        filter (\<lambda>f. \<forall>s \<in> set (idleIds now idleMs entries). \<not> startsWith f (s @ ''__'')) (files ?d)"
      using True e Cons.IH [OF d l] by simp
    also have "\<dots> = filter (\<lambda>f. \<forall>s \<in> set (sid # idleIds now idleMs entries). \<not> startsWith f (s @ ''__'')) (files d)"
      unfolding fd filter_filter by (rule filter_cong) auto
    finally show ?thesis unfolding ids .
  next
    case False
    then have ids: "idleIds now idleMs (e # entries) = idleIds now idleMs entries"
      by (simp add: idleIds_def e)
    show ?thesis unfolding ids using False e Cons.IH [OF Cons.prems(1)] Cons.prems(2) unfolding ids by simp
  qed
qed

lemma sweep_example:
  "cleanupIdleSessions 3600000 10000000 sweepGlobals sweepDir =
     (\<lparr>documentStore = Some [(''sessB'', SessionDocs [])],
       sessionMetaStore = Some [(''sessB'', 8200000)]\<rparr>,
      \<lparr>dirExists = True, files = [''sessB__f2.pdf'', ''notes.txt''], locked = [], readOnly = False\<rparr>,
      1)"
  by (simp add: cleanupIdleSessions_def sweepGlobals_def sweepDir_def deleteSessionFiles_def
      startsWith_def AList.delete_eq)

text \<open>
  Claim C8, as amended. The idle sweep counts exactly the entries of the activity map
  with \<open>now - lastActivity > idleMs\<close>. For such an entry the activity entry and the
  store entry are gone afterwards; for an entry not over the threshold both are as
  before. The sweep deletes no file other than those whose name starts with the marker
  \<open>sessionId__\<close> of an entry over the threshold, and when the uploads directory can be
  read and \<open>unlink\<close> fails on none of these files it deletes all of them.
\<close>

theorem cleanupIdleSessions_reclaims_idle:
  assumes "sessionMetaStore g = Some sm" "distinct (map fst sm)"
  shows "case cleanupIdleSessions idleMs now g d of (g', d', cleaned) \<Rightarrow>
     cleaned = length (filter (\<lambda>e. now - snd e > idleMs) sm) \<and>
     (\<forall>sessionId lastActivity. (sessionId, lastActivity) \<in> set sm \<longrightarrow>
        (if now - lastActivity > idleMs
         then activity g' sessionId = None \<and> storeGet g' sessionId = None
         else activity g' sessionId = Some lastActivity \<and>
              storeGet g' sessionId = storeGet g sessionId)) \<and>
     set (files d') \<subseteq> set (files d) \<and>
     (\<forall>f \<in> set (files d).
        (\<forall>e \<in> set sm. now - snd e > idleMs \<longrightarrow> \<not> startsWith f (fst e @ ''__''))
          \<longrightarrow> f \<in> set (files d')) \<and>
     (dirExists d \<and>
      (\<forall>e \<in> set sm. now - snd e > idleMs \<longrightarrow>
         (\<forall>f \<in> set (files d). startsWith f (fst e @ ''__'') \<longrightarrow> f \<notin> set (locked d)))
        \<longrightarrow> files d' =
              filter (\<lambda>f. \<forall>e \<in> set sm. now - snd e > idleMs \<longrightarrow> \<not> startsWith f (fst e @ ''__''))
                (files d))"
proof -
  let ?ids = "idleIds now idleMs sm"
  obtain g' d' cleaned where r: "sweepLoop now idleMs sm (g, d, 0) = (g', d', cleaned)"
    by (cases "sweepLoop now idleMs sm (g, d, 0)") auto
  have ids: "sid \<in> set ?ids \<longleftrightarrow> (\<exists>e \<in> set sm. now - snd e > idleMs \<and> fst e = sid)" for sid
    by (auto simp: idleIds_def)
  have c: "cleaned = length (filter (\<lambda>e. now - snd e > idleMs) sm)"
    using sweepLoop_count [of now idleMs sm g d 0] r by (simp add: idleIds_def)
  have g': "g' = g\<lparr>documentStore := map_option (filter (\<lambda>p. fst p \<notin> set ?ids)) (documentStore g),
       sessionMetaStore := map_option (filter (\<lambda>p. fst p \<notin> set ?ids)) (sessionMetaStore g)\<rparr>"
    using sweepLoop_globals [of now idleMs sm g d 0] r by simp
  have act: "activity g' k = (if k \<in> set ?ids then None else activity g k)" for k
    by (simp add: g' activity_def assms(1) map_of_filter_keys)
  have st: "storeGet g' k = (if k \<in> set ?ids then None else storeGet g k)" for k
    by (cases "documentStore g") (simp_all add: g' storeGet_def map_of_filter_keys)
  have per: "if now - la > idleMs
         then activity g' sid = None \<and> storeGet g' sid = None
         else activity g' sid = Some la \<and> storeGet g' sid = storeGet g sid"
    if m: "(sid, la) \<in> set sm" for sid la
  proof (cases "now - la > idleMs")
    case True
    then have "sid \<in> set ?ids" using idleIds_member [OF assms(2) m] by simp
    then show ?thesis using True by (simp add: act st)
  next
    case False
    then have n: "sid \<notin> set ?ids" using idleIds_member [OF assms(2) m] by simp
    have a: "activity g sid = Some la"
      using assms(1,2) m by (simp add: activity_def)
    show ?thesis using False n a by (simp add: act st)
  qed
  have sub: "set (files d') \<subseteq> set (files d)"
    using sweepLoop_files_subset [of now idleMs sm g d 0] r by simp
  have keep: "f \<in> set (files d')"
    if "f \<in> set (files d)" "\<forall>e \<in> set sm. now - snd e > idleMs \<longrightarrow> \<not> startsWith f (fst e @ ''__'')" for f
  proof -
    have "\<forall>sid \<in> set ?ids. \<not> startsWith f (sid @ ''__'')" using that(2) by (auto simp: ids)
    then show ?thesis using sweepLoop_files_keeps [OF that(1), of now idleMs sm g 0] r by simp
  qed
  have all: "files d' =
      filter (\<lambda>f. \<forall>e \<in> set sm. now - snd e > idleMs \<longrightarrow> \<not> startsWith f (fst e @ ''__'')) (files d)"
    if "dirExists d" "\<forall>e \<in> set sm. now - snd e > idleMs \<longrightarrow>
         (\<forall>f \<in> set (files d). startsWith f (fst e @ ''__'') \<longrightarrow> f \<notin> set (locked d))"
  proof -
    have "\<forall>sid \<in> set ?ids. \<forall>f \<in> set (files d). startsWith f (sid @ ''__'') \<longrightarrow> f \<notin> set (locked d)"
      using that(2) by (auto simp: ids)
    then have "files d' = filter (\<lambda>f. \<forall>sid \<in> set ?ids. \<not> startsWith f (sid @ ''__'')) (files d)"
      using sweepLoop_files_unlocked [OF that(1), of now idleMs sm g 0] r by simp
    also have "\<dots> = filter (\<lambda>f. \<forall>e \<in> set sm. now - snd e > idleMs \<longrightarrow> \<not> startsWith f (fst e @ ''__'')) (files d)"
      by (rule filter_cong) (force simp: idleIds_def)+
    finally show ?thesis .
  qed
  have res: "cleanupIdleSessions idleMs now g d = (g', d', cleaned)"
    using r assms(1) by (simp add: cleanupIdleSessions_def)
  show ?thesis unfolding res prod.case using c per sub keep all by blast
qed

theorem cleanupIdleSessions_reclaims_idle_witness:
  "sessionMetaStore sweepGlobals = Some [(''sessA'', 10000000 - 2 * 3600000), (''sessB'', 10000000 - 1800000)] \<and>
   distinct (map fst [(''sessA'', 10000000 - 2 * 3600000 :: int), (''sessB'', 10000000 - 1800000)]) \<and>
   dirExists sweepDir \<and> locked sweepDir = [] \<and>
   (case cleanupIdleSessions 3600000 10000000 sweepGlobals sweepDir of (g', d', cleaned) \<Rightarrow>
      cleaned = 1 \<and> files d' = [''sessB__f2.pdf'', ''notes.txt''] \<and>
      activity g' ''sessA'' = None \<and> storeGet g' ''sessA'' = None \<and>
      activity g' ''sessB'' = Some 8200000 \<and> storeGet g' ''sessB'' = storeGet sweepGlobals ''sessB'')"
proof -
  have h: "sessionMetaStore sweepGlobals = Some [(''sessA'', 2800000), (''sessB'', 8200000)]"
    "distinct (map fst [(''sessA'', 2800000 :: int), (''sessB'', 8200000)])"
    by (simp_all add: sweepGlobals_def)
  have d: "dirExists sweepDir" "locked sweepDir = []"
    "files sweepDir = [''sessA__f1.pdf'', ''sessB__f2.pdf'', ''notes.txt'']"
    by (simp_all add: sweepDir_def)
  show ?thesis
    using cleanupIdleSessions_reclaims_idle [OF h, of 3600000 10000000 sweepDir]
    by (simp add: sweep_example h d)
qed

text \<open>
  Claim C8 as stated fails twice. When \<open>unlink\<close> fails on the first file of an idle
  session, the sweep reclaims and counts the session but leaves its other file too: the
  \<open>try\<close> block holds the whole loop over the files. And the files of a session that was
  active 30 minutes ago are deleted when their names start with the marker of an idle
  session, as \<open>a__b__f1.pdf\<close> of session \<open>a__b\<close> does with the marker \<open>a__\<close> of
  session \<open>a\<close>.
\<close>

theorem cleanupIdleSessions_files_counterexample:
  "cleanupIdleSessions 3600000 10000000 sweepGlobals lockedDir =
     (\<lparr>documentStore = Some [(''sessB'', SessionDocs [])],
       sessionMetaStore = Some [(''sessB'', 8200000)]\<rparr>,
      lockedDir, 1) \<and>
   ''sessA__f2.pdf'' \<in> set (files lockedDir) \<and> ''sessA__f2.pdf'' \<notin> set (locked lockedDir) \<and>
   cleanupIdleSessions 3600000 10000000 prefixGlobals prefixDir =
     (\<lparr>documentStore = Some [(''a__b'', SessionDocs [])],
       sessionMetaStore = Some [(''a__b'', 10000000 - 1800000)]\<rparr>,
      prefixDir\<lparr>files := []\<rparr>, 1) \<and>
   files prefixDir = [''a__b__f1.pdf'']"
  by (simp add: cleanupIdleSessions_def sweepGlobals_def lockedDir_def prefixGlobals_def prefixDir_def
      deleteSessionFiles_def startsWith_def AList.delete_eq)

lemma cleanupIdleSessions_count:
  "snd (snd (cleanupIdleSessions idleMs now g d)) =
     length (filter (\<lambda>e. now - snd e > idleMs) (case sessionMetaStore g of None \<Rightarrow> [] | Some sm \<Rightarrow> sm))"
  by (simp add: cleanupIdleSessions_def sweepLoop_count idleIds_def)

text \<open>
  Claim C10. Without a session cookie (none, or an empty value) the cleanup endpoint
  answers 400 with \<open>success: false\<close> and the error \<open>No sessionId found in cookies.\<close>; the
  state it leaves is the state after the idle sweep with the one-hour threshold, and
  \<open>idleCleaned\<close> is the number of entries that sweep found idle.
\<close>

theorem cleanupPOST_without_cookie:
  assumes "\<not> truthy cookie"
  shows "cleanupPOST now cookie g d =
     (\<lparr>status = 400, success = False, error = Some ''No sessionId found in cookies.'',
       uploads = None, documentStoreCleared = None,
       idleCleaned = snd (snd (cleanupIdleSessions 3600000 now g d)), message = None\<rparr>,
      fst (cleanupIdleSessions 3600000 now g d),
      fst (snd (cleanupIdleSessions 3600000 now g d))) \<and>
    snd (snd (cleanupIdleSessions 3600000 now g d)) =
      length (filter (\<lambda>e. now - snd e > 3600000)
                (case sessionMetaStore g of None \<Rightarrow> [] | Some sm \<Rightarrow> sm))"
proof -
  obtain g1 d1 n where r: "cleanupIdleSessions 3600000 now g d = (g1, d1, n)"
    by (cases "cleanupIdleSessions 3600000 now g d") auto
  have "cleanupIdleSessions (60 * 60 * 1000) now g d = (g1, d1, n)" using r by simp
  then have "cleanupPOST now cookie g d =
     (\<lparr>status = 400, success = False, error = Some ''No sessionId found in cookies.'',
       uploads = None, documentStoreCleared = None, idleCleaned = n, message = None\<rparr>, g1, d1)"
    using assms unfolding cleanupPOST_def by (simp only: Let_def prod.case if_True simp_thms)
  then show ?thesis using cleanupIdleSessions_count [of 3600000 now g d] r by simp
qed

theorem cleanupPOST_without_cookie_witness:
  "\<not> truthy None \<and> \<not> truthy (Some []) \<and>
   cleanupPOST 10000000 None sweepGlobals sweepDir =
     (\<lparr>status = 400, success = False, error = Some ''No sessionId found in cookies.'',
       uploads = None, documentStoreCleared = None, idleCleaned = 1, message = None\<rparr>,
      \<lparr>documentStore = Some [(''sessB'', SessionDocs [])],
       sessionMetaStore = Some [(''sessB'', 8200000)]\<rparr>,
      \<lparr>dirExists = True, files = [''sessB__f2.pdf'', ''notes.txt''], locked = [], readOnly = False\<rparr>) \<and>
   fst (cleanupPOST 10000000 (Some []) sweepGlobals sweepDir) =
     \<lparr>status = 400, success = False, error = Some ''No sessionId found in cookies.'',
      uploads = None, documentStoreCleared = None, idleCleaned = 1, message = None\<rparr>"
proof -
  have n: "\<not> truthy None" "\<not> truthy (Some [])" by (simp_all add: truthy_def)
  show ?thesis
    using cleanupPOST_without_cookie [OF n(1), of 10000000 sweepGlobals sweepDir]
      cleanupPOST_without_cookie [OF n(2), of 10000000 sweepGlobals sweepDir]
    by (simp add: sweep_example n)
qed

section \<open>Properties of the upload routes\<close>

lemma marker_needs_underscore:
  assumes "startsWith name (sid @ ''__'')"
  shows "CHR ''_'' \<in> set name"
proof -
  have "take (length (sid @ ''__'')) name = sid @ ''__''"
    using assms by (simp only: startsWith_def)
  then have "CHR ''_'' \<in> set (take (length (sid @ ''__'')) name)" by simp
  then show ?thesis by (rule in_set_takeD)
qed

lemma unlinkLoop_no_match:
  "\<forall>f \<in> set listing. \<not> startsWith f pre \<Longrightarrow>
   unlinkLoop pre lockedFiles listing (left, n) = (left, n, None)"
  by (induction listing) simp_all

lemma uploadWithSession_names:
  assumes "uploadWithSession extname fresh uuid cookie file d = (Saved name path, cookie', d')"
  shows "\<exists>sessionId f. cookie' = Some sessionId \<and> file = Some f \<and>
           sessionId = (if truthy cookie then the cookie else fresh) \<and>
           name = sessionId @ ''__'' @ uuid @ extname (fileName f) \<and>
           startsWith name (sessionId @ ''__'') \<and> name \<in> set (files d')"
  using assms
  by (auto simp: uploadWithSession_def saveFile_def startsWith_def Let_def
      split: option.splits if_splits)

lemma uploadWithSession_then_cleanup:
  assumes "uploadWithSession extname fresh uuid cookie file d = (Saved name path, Some sessionId, d')"
    and "locked d' = []"
  shows "name \<in> set (files d') \<and> name \<notin> set (files (snd (clearUploadsDirForSession sessionId d')))"
proof -
  have n: "startsWith name (sessionId @ ''__'')" "name \<in> set (files d')"
    using uploadWithSession_names [OF assms(1)] by auto
  have e: "dirExists d'"
    using assms(1)
    by (auto simp: uploadWithSession_def saveFile_def Let_def split: option.splits if_splits)
  have "fst (unlinkLoop (sessionId @ ''__'') [] (files d') (files d', 0)) =
        filter (\<lambda>f. \<not> (f \<in> set (files d') \<and> startsWith f (sessionId @ ''__''))) (files d')"
    by (rule unlinkLoop_unlocked) simp
  then have "name \<notin> set (fst (unlinkLoop (sessionId @ ''__'') [] (files d') (files d', 0)))"
    using n by simp
  then show ?thesis using n e assms(2)
    by (auto simp add: clearUploadsDirForSession_def split: prod.splits)
qed

text \<open>
  Claim C9 fails on the code. The upload handler that reads no cookie writes
  \<open>doc.pdf\<close> under the name \<open>f1.pdf\<close>, its file id and extension alone. The name
  has no underscore, so it starts with no marker \<open>sessionId__\<close>: neither the session
  cleanup nor the sweep's deletion removes it, for any session id. (The handler that
  reads the cookie does prefix the name, \<open>uploadWithSession_then_cleanup\<close>.)
\<close>

theorem upload_without_session_prefix:
  "uploadWithoutSession (\<lambda>name. ''.pdf'') ''f1'' (Some pdfFile) emptyDir =
     (Saved ''f1.pdf'' ''uploads/f1.pdf'',
      \<lparr>dirExists = True, files = [''f1.pdf''], locked = [], readOnly = False\<rparr>) \<and>
   (\<forall>sessionId.
      \<not> startsWith ''f1.pdf'' (sessionId @ ''__'') \<and>
      clearUploadsDirForSession sessionId
        \<lparr>dirExists = True, files = [''f1.pdf''], locked = [], readOnly = False\<rparr> =
        ((0, None), \<lparr>dirExists = True, files = [''f1.pdf''], locked = [], readOnly = False\<rparr>) \<and>
      deleteSessionFiles sessionId
        \<lparr>dirExists = True, files = [''f1.pdf''], locked = [], readOnly = False\<rparr> =
        \<lparr>dirExists = True, files = [''f1.pdf''], locked = [], readOnly = False\<rparr>)"
proof -
  have up: "uploadWithoutSession (\<lambda>name. ''.pdf'') ''f1'' (Some pdfFile) emptyDir =
     (Saved ''f1.pdf'' ''uploads/f1.pdf'',
      \<lparr>dirExists = True, files = [''f1.pdf''], locked = [], readOnly = False\<rparr>)"
    by (simp add: uploadWithoutSession_def saveFile_def pdfFile_def emptyDir_def
        MAX_FILE_SIZE_def ALLOWED_TYPES_def Let_def)
  have no: "\<not> startsWith ''f1.pdf'' (sessionId @ ''__'')" for sessionId
    using marker_needs_underscore [of "''f1.pdf''" sessionId] by auto
  have "unlinkLoop (sessionId @ ''__'') [] [''f1.pdf''] ([''f1.pdf''], 0) = ([''f1.pdf''], 0, None)"
    for sessionId
    using no [of sessionId] by simp
  then show ?thesis using up no
    by (simp add: clearUploadsDirForSession_def deleteSessionFiles_def)
qed

section \<open>Properties of the similarity\<close>












end
